theory Spec2Isabelle
  imports Complex_Main
begin

section \<open>Data model of \<^verbatim>\<open>go_ai/mcts.py\<close>\<close>

text \<open>
  Python exceptions are values. \<open>DanglingRef\<close> has no Python counterpart: it is the result
  of following a node reference that the store does not hold, which only an ill-formed
  store can cause (a Python reference always denotes an object).
\<close>

datatype error =
    IndexError
  | AttributeError
  | AssertionError
  | ValueError
  | RecursionError
  | Exception string
  | DanglingRef

text \<open>
  A game state is a numpy array. Only two array operations of the source touch a state:
  \<^verbatim>\<open>state.shape\<close> and indexing along the first axis. A batch of states, which numpy holds
  as an array with one more axis, is a list of states. Floating-point numbers are real
  numbers here; visit counts are natural numbers, since the source sets them to 0 and adds 1.
\<close>

datatype ndarray = Scalar real | Array "ndarray list"

fun shape :: "ndarray \<Rightarrow> nat list" where
  "shape (Scalar x) = []"
| "shape (Array []) = [0]"
| "shape (Array (x # xs)) = Suc (length xs) # shape x"

fun nd_index :: "ndarray \<Rightarrow> nat \<Rightarrow> error + ndarray" where
  "nd_index (Scalar x) i = Inl IndexError"
| "nd_index (Array xs) i = (if i < length xs then Inr (xs ! i) else Inl IndexError)"

text \<open>Indexing a Python list or a one-dimensional array with a non-negative index.\<close>

definition index :: "'a list \<Rightarrow> nat \<Rightarrow> error + 'a" where
  "index xs i = (if i < length xs then Inr (xs ! i) else Inl IndexError)"

text \<open>
  The game-rules oracle \<^verbatim>\<open>GoGame\<close> comes from the package \<^verbatim>\<open>gym_go\<close>, which is not part of
  the repository: it is a parameter. Its functions are taken as total and pure.
\<close>

record gamerules =
  get_valid_moves :: "ndarray \<Rightarrow> bool list"
  get_action_size :: "ndarray \<Rightarrow> nat"
  get_next_state :: "ndarray \<Rightarrow> nat \<Rightarrow> ndarray"
  get_turn :: "ndarray \<Rightarrow> int"
  get_canonical_form :: "ndarray \<Rightarrow> int \<Rightarrow> ndarray"
  get_game_ended :: "ndarray \<Rightarrow> bool"
  get_areas :: "ndarray \<Rightarrow> int \<times> int"

text \<open>
  The evaluator \<^verbatim>\<open>forward_func\<close>: a batch of states to one prior vector and one value per
  state. It is a parameter as well.
\<close>

type_synonym evaluator = "ndarray list \<Rightarrow> real list list \<times> real list"

text \<open>
  \<^verbatim>\<open>class Node\<close>. Nodes live in a store (a list, a node's reference is its position), so that
  the parent link and the child slots can alias the same node as they do in Python.
\<close>

record node =
  parent :: "nat option"
  height :: nat
  children :: "nat option list"
  action_probs :: "real list"
  state :: ndarray
  turn :: int
  terminal :: bool
  N :: nat
  V :: real
  Q_sum :: real

definition node_at :: "node list \<Rightarrow> nat \<Rightarrow> error + node" where
  "node_at ns nid = (if nid < length ns then Inr (ns ! nid) else Inl DanglingRef)"

subsection \<open>\<^verbatim>\<open>Node.__init__\<close>\<close>

text \<open>
  The part of the constructor after the parent has been linked: the two reads of
  \<^verbatim>\<open>state.shape\<close>, the assertion, and the fields. The new node's reference is the length
  of the store.
\<close>

definition Node_fields ::
  "gamerules \<Rightarrow> node list \<Rightarrow> nat option \<Rightarrow> nat \<Rightarrow> real list \<Rightarrow> real \<Rightarrow> ndarray
    \<Rightarrow> error + (node list \<times> nat)" where
  "Node_fields gr ns par h probs state_value st =
     (if length (shape st) < 3 then Inl IndexError
      else if shape st ! 1 \<noteq> shape st ! 2 then Inl AssertionError
      else
        let board_size = shape st ! 1 in
        Inr (ns @ [\<lparr>parent = par, height = h,
                    children = replicate (board_size ^ 2 + 1) None,
                    action_probs = probs, state = st,
                    turn = get_turn gr st, terminal = get_game_ended gr st,
                    N = 0, V = state_value, Q_sum = 0\<rparr>],
             length ns))"

definition Node_init ::
  "gamerules \<Rightarrow> node list \<Rightarrow> (nat \<times> nat) option \<Rightarrow> real list \<Rightarrow> real \<Rightarrow> ndarray
    \<Rightarrow> error + (node list \<times> nat)" where
  "Node_init gr ns parentaction probs state_value st =
     (case parentaction of
        Some (p, a) \<Rightarrow>
          (case node_at ns p of
             Inl e \<Rightarrow> Inl e
           | Inr pn \<Rightarrow>
               if a < length (children pn) then
                 Node_fields gr
                   (ns[p := pn\<lparr>children := (children pn)[a := Some (length ns)]\<rparr>])
                   (Some p) (height pn + 1) probs state_value st
               else Inl IndexError)
      | None \<Rightarrow> Node_fields gr ns None 0 probs state_value st)"

subsection \<open>\<^verbatim>\<open>Node.is_leaf\<close>, \<^verbatim>\<open>visited\<close>, \<^verbatim>\<open>cached_children\<close>\<close>

definition real_children :: "nat option list \<Rightarrow> nat list" where
  "real_children cs = map the (filter (\<lambda>child. child \<noteq> None) cs)"

fun child_counts :: "node list \<Rightarrow> nat list \<Rightarrow> error + nat list" where
  "child_counts ns [] = Inr []"
| "child_counts ns (c # cs) =
     (case node_at ns c of
        Inl e \<Rightarrow> Inl e
      | Inr child \<Rightarrow>
          (case child_counts ns cs of
             Inl e \<Rightarrow> Inl e
           | Inr counts \<Rightarrow> Inr (N child # counts)))"

definition is_leaf :: "node list \<Rightarrow> nat \<Rightarrow> error + bool" where
  "is_leaf ns nid =
     (case node_at ns nid of
        Inl e \<Rightarrow> Inl e
      | Inr self \<Rightarrow>
          if N self = 1 then Inr True
          else
            (case child_counts ns (real_children (children self)) of
               Inl e \<Rightarrow> Inl e
             | Inr counts \<Rightarrow> Inr (sum_list counts \<le> 0)))"

definition visited :: "node \<Rightarrow> bool" where
  "visited self = (N self > 0)"

definition cached_children :: "node \<Rightarrow> bool" where
  "cached_children self = (\<exists>child \<in> set (children self). child \<noteq> None)"

subsection \<open>\<^verbatim>\<open>Node.avg_Q\<close>\<close>

definition avg_Q :: "node list \<Rightarrow> nat \<Rightarrow> nat \<Rightarrow> error + real" where
  "avg_Q ns nid move =
     (case node_at ns nid of
        Inl e \<Rightarrow> Inl e
      | Inr self \<Rightarrow>
          (case index (children self) move of
             Inl e \<Rightarrow> Inl e
           | Inr None \<Rightarrow> Inl AttributeError
           | Inr (Some c) \<Rightarrow>
               (case node_at ns c of
                  Inl e \<Rightarrow> Inl e
                | Inr child \<Rightarrow>
                    Inr (- ((V child + Q_sum child) / (1 + real (N self)))))))"

subsection \<open>\<^verbatim>\<open>Node.back_propagate\<close>\<close>

text \<open>
  The method recurses to the parent. The first argument is the number of Python stack
  frames still available: when none is left the interpreter raises \<^verbatim>\<open>RecursionError\<close>.
\<close>

fun back_propagate :: "nat \<Rightarrow> node list \<Rightarrow> nat \<Rightarrow> real \<Rightarrow> error + node list" where
  "back_propagate 0 ns nid value_incre = Inl RecursionError"
| "back_propagate (Suc frames) ns nid value_incre =
     (case node_at ns nid of
        Inl e \<Rightarrow> Inl e
      | Inr self \<Rightarrow>
          let ns1 = ns[nid := self\<lparr>N := N self + 1, Q_sum := Q_sum self + value_incre\<rparr>] in
          (case parent self of
             None \<Rightarrow> Inr ns1
           | Some p \<Rightarrow> back_propagate frames ns1 p (- value_incre)))"

text \<open>The chain of parent links from a node up to a node without parent.\<close>

inductive parent_chain :: "node list \<Rightarrow> nat \<Rightarrow> nat list \<Rightarrow> bool" where
  chain_root: "nid < length ns \<Longrightarrow> parent (ns ! nid) = None \<Longrightarrow> parent_chain ns nid [nid]"
| chain_step: "nid < length ns \<Longrightarrow> parent (ns ! nid) = Some p \<Longrightarrow> parent_chain ns p ps
     \<Longrightarrow> parent_chain ns nid (nid # ps)"

section \<open>The lookahead batcher: \<^verbatim>\<open>get_immediate_lookahead\<close>\<close>

text \<open>\<^verbatim>\<open>np.argwhere(valid_moves > 0).flatten()\<close>: the positions of the legal moves, ascending.\<close>

definition valid_move_idcs :: "bool list \<Rightarrow> nat list" where
  "valid_move_idcs valid_moves = filter (\<lambda>move. valid_moves ! move) [0..<length valid_moves]"

definition canonical_winning :: "gamerules \<Rightarrow> ndarray \<Rightarrow> real" where
  "canonical_winning gr canonical_state =
     (case get_areas gr canonical_state of
        (my_area, opp_area) \<Rightarrow>
          if my_area > opp_area then 1
          else if my_area < opp_area then - 1
          else 0)"

text \<open>The body of the first loop: the canonical successor of a state by a move.\<close>

definition canonical_next :: "gamerules \<Rightarrow> ndarray \<Rightarrow> nat \<Rightarrow> ndarray" where
  "canonical_next gr st move =
     (let next_state = get_next_state gr st move;
          next_turn = get_turn gr next_state
      in get_canonical_form gr next_state next_turn)"

definition canonical_children :: "gamerules \<Rightarrow> ndarray \<Rightarrow> ndarray list" where
  "canonical_children gr st =
     map (canonical_next gr st) (valid_move_idcs (get_valid_moves gr st))"

text \<open>
  The inner loop of the second pass, over \<^verbatim>\<open>range(get_action_size(state))\<close>: it returns the
  running index, the row \<^verbatim>\<open>Qs\<close> and the row \<^verbatim>\<open>children_pis\<close>.
\<close>

fun lookahead_moves ::
  "gamerules \<Rightarrow> bool list \<Rightarrow> ndarray list \<Rightarrow> real list list \<Rightarrow> real list \<Rightarrow> nat list \<Rightarrow> nat
    \<Rightarrow> error + (nat \<times> real list \<times> real list list)" where
  "lookahead_moves gr valid_moves cns cpis cvals [] curr_idx = Inr (curr_idx, [], [])"
| "lookahead_moves gr valid_moves cns cpis cvals (move # moves) curr_idx =
     (case index valid_moves move of
        Inl e \<Rightarrow> Inl e
      | Inr True \<Rightarrow>
          (case index cns curr_idx of
             Inl e \<Rightarrow> Inl e
           | Inr canonical_next_state \<Rightarrow>
               let ended = of_bool (get_game_ended gr canonical_next_state);
                   winning = canonical_winning gr canonical_next_state
               in
               (case index cvals curr_idx of
                  Inl e \<Rightarrow> Inl e
                | Inr v \<Rightarrow>
                    let val = (1 - ended) * v + ended * winning in
                    (case index cpis curr_idx of
                       Inl e \<Rightarrow> Inl e
                     | Inr p \<Rightarrow>
                         (case lookahead_moves gr valid_moves cns cpis cvals moves (curr_idx + 1) of
                            Inl e \<Rightarrow> Inl e
                          | Inr (idx, Qs, children_pis) \<Rightarrow>
                              Inr (idx, (- val) # Qs, p # children_pis)))))
      | Inr False \<Rightarrow>
          (case lookahead_moves gr valid_moves cns cpis cvals moves curr_idx of
             Inl e \<Rightarrow> Inl e
           | Inr (idx, Qs, children_pis) \<Rightarrow> Inr (idx, 0 # Qs, children_pis)))"

text \<open>The outer loop of the second pass, over the batch.\<close>

fun lookahead_states ::
  "gamerules \<Rightarrow> ndarray list \<Rightarrow> real list list \<Rightarrow> real list \<Rightarrow> ndarray list \<Rightarrow> nat
    \<Rightarrow> error + (nat \<times> real list list \<times> real list list list)" where
  "lookahead_states gr cns cpis cvals [] curr_idx = Inr (curr_idx, [], [])"
| "lookahead_states gr cns cpis cvals (st # sts) curr_idx =
     (case lookahead_moves gr (get_valid_moves gr st) cns cpis cvals
             [0..<get_action_size gr st] curr_idx of
        Inl e \<Rightarrow> Inl e
      | Inr (idx, Qs, children_pis) \<Rightarrow>
          (case lookahead_states gr cns cpis cvals sts idx of
             Inl e \<Rightarrow> Inl e
           | Inr (idx', batch_qvals, batch_pis) \<Rightarrow>
               Inr (idx', Qs # batch_qvals, children_pis # batch_pis)))"

text \<open>
  The result is paired with the batches on which the function invoked the evaluator, in
  order: the first component is the trace of its evaluator calls. The second component is
  the Python result \<^verbatim>\<open>(batch_pis, batch_qvals, canonical_next_states)\<close> or the exception.
\<close>

definition get_immediate_lookahead ::
  "gamerules \<Rightarrow> evaluator \<Rightarrow> ndarray list
    \<Rightarrow> ndarray list list \<times> (error + (real list list list \<times> real list list \<times> ndarray list))" where
  "get_immediate_lookahead gr forward_func states =
     (let canonical_next_states = concat (map (canonical_children gr) states) in
      case forward_func canonical_next_states of
        (canonical_pis, canonical_next_vals) \<Rightarrow>
          ([canonical_next_states],
           (case lookahead_states gr canonical_next_states canonical_pis canonical_next_vals
                   states 0 of
              Inl e \<Rightarrow> Inl e
            | Inr (curr_idx, batch_qvals, batch_pis) \<Rightarrow>
                if curr_idx \<noteq> length canonical_next_vals then Inl AssertionError
                else if curr_idx \<noteq> length canonical_pis then Inl AssertionError
                else Inr (batch_pis, batch_qvals, canonical_next_states))))"

section \<open>\<^verbatim>\<open>class MCTree\<close>\<close>

record mctree =
  nodes :: "node list"
  root_ref :: nat
  board_size :: nat
  action_size :: nat

subsection \<open>\<^verbatim>\<open>MCTree.__init__\<close>\<close>

definition MCTree_init :: "gamerules \<Rightarrow> evaluator \<Rightarrow> nat \<Rightarrow> ndarray \<Rightarrow> error + mctree" where
  "MCTree_init gr forward_func frames st =
     (case forward_func [st] of
        (batch_probs, batch_values) \<Rightarrow>
          (case index batch_probs 0 of
             Inl e \<Rightarrow> Inl e
           | Inr probs \<Rightarrow>
               (case index batch_values 0 of
                  Inl e \<Rightarrow> Inl e
                | Inr state_value \<Rightarrow>
                    (case Node_init gr [] None probs state_value st of
                       Inl e \<Rightarrow> Inl e
                     | Inr (ns, r) \<Rightarrow>
                         if visited (ns ! r) then Inl AssertionError
                         else
                           (case back_propagate frames ns r (V (ns ! r)) of
                              Inl e \<Rightarrow> Inl e
                            | Inr ns' \<Rightarrow>
                                Inr \<lparr>nodes = ns', root_ref = r,
                                     board_size = shape st ! 1,
                                     action_size = get_action_size gr st\<rparr>)))))"

subsection \<open>\<^verbatim>\<open>MCTree.cache_children\<close>\<close>

text \<open>
  The loop \<^verbatim>\<open>for idx, move in enumerate(valid_move_idcs)\<close>. The third argument of the
  constructor is \<^verbatim>\<open>batch_canonical_children[0][idx]\<close>, where \<^verbatim>\<open>batch_canonical_children\<close> is the
  flat array of canonical successors that \<^verbatim>\<open>get_immediate_lookahead\<close> returns: the first
  successor, indexed along its own first axis.
\<close>

fun make_children ::
  "gamerules \<Rightarrow> nat \<Rightarrow> real list list list \<Rightarrow> real list list \<Rightarrow> ndarray list
    \<Rightarrow> (nat \<times> nat) list \<Rightarrow> node list \<Rightarrow> error + node list" where
  "make_children gr nid batch_pis batch_qvals batch_canonical_children [] ns = Inr ns"
| "make_children gr nid batch_pis batch_qvals batch_canonical_children ((idx, move) # rest) ns =
     (case index batch_pis 0 of
        Inl e \<Rightarrow> Inl e
      | Inr pis0 \<Rightarrow>
     (case index pis0 idx of
        Inl e \<Rightarrow> Inl e
      | Inr probs \<Rightarrow>
     (case index batch_qvals 0 of
        Inl e \<Rightarrow> Inl e
      | Inr qvals0 \<Rightarrow>
     (case index qvals0 idx of
        Inl e \<Rightarrow> Inl e
      | Inr state_value \<Rightarrow>
     (case index batch_canonical_children 0 of
        Inl e \<Rightarrow> Inl e
      | Inr child0 \<Rightarrow>
     (case nd_index child0 idx of
        Inl e \<Rightarrow> Inl e
      | Inr st \<Rightarrow>
     (case Node_init gr ns (Some (nid, move)) probs state_value st of
        Inl e \<Rightarrow> Inl e
      | Inr (ns', c) \<Rightarrow>
          make_children gr nid batch_pis batch_qvals batch_canonical_children rest ns')))))))"

definition cache_children :: "gamerules \<Rightarrow> evaluator \<Rightarrow> mctree \<Rightarrow> nat \<Rightarrow> error + mctree" where
  "cache_children gr forward_func t nid =
     (case node_at (nodes t) nid of
        Inl e \<Rightarrow> Inl e
      | Inr self \<Rightarrow>
          if terminal self then Inr t
          else
            let idcs = valid_move_idcs (get_valid_moves gr (state self)) in
            (case snd (get_immediate_lookahead gr forward_func [state self]) of
               Inl e \<Rightarrow> Inl e
             | Inr (batch_pis, batch_qvals, batch_canonical_children) \<Rightarrow>
                 (case make_children gr nid batch_pis batch_qvals batch_canonical_children
                         (enumerate 0 idcs) (nodes t) of
                    Inl e \<Rightarrow> Inl e
                  | Inr ns' \<Rightarrow> Inr (t\<lparr>nodes := ns'\<rparr>))))"

subsection \<open>\<^verbatim>\<open>MCTree.select_best_child\<close>\<close>

text \<open>The body of the loop up to the comparison: \<^verbatim>\<open>Q + U\<close> for one move.\<close>

definition UCB :: "node list \<Rightarrow> nat \<Rightarrow> real \<Rightarrow> nat \<Rightarrow> error + real" where
  "UCB ns nid u_const move =
     (case avg_Q ns nid move of
        Inl e \<Rightarrow> Inl e
      | Inr Q \<Rightarrow>
     (case node_at ns nid of
        Inl e \<Rightarrow> Inl e
      | Inr self \<Rightarrow>
     (case index (children self) move of
        Inl e \<Rightarrow> Inl e
      | Inr None \<Rightarrow> Inl AttributeError
      | Inr (Some c) \<Rightarrow>
     (case node_at ns c of
        Inl e \<Rightarrow> Inl e
      | Inr child \<Rightarrow>
          let Nsa = N child in
          (case index (action_probs self) move of
             Inl e \<Rightarrow> Inl e
           | Inr Psa \<Rightarrow>
               let U = u_const * Psa * sqrt (real (N self)) / (1 + real Nsa)
               in Inr (Q + U))))))"

text \<open>
  The loop over the legal moves. \<open>max_UCB = None\<close> stands for \<^verbatim>\<open>np.NINF\<close>, below every
  score.
\<close>

fun best_move_loop ::
  "node list \<Rightarrow> nat \<Rightarrow> real \<Rightarrow> nat list \<Rightarrow> nat option \<Rightarrow> real option \<Rightarrow> error + nat option" where
  "best_move_loop ns nid u_const [] best_move max_UCB = Inr best_move"
| "best_move_loop ns nid u_const (move # moves) best_move max_UCB =
     (case UCB ns nid u_const move of
        Inl e \<Rightarrow> Inl e
      | Inr score \<Rightarrow>
          if (case max_UCB of None \<Rightarrow> True | Some m \<Rightarrow> score > m)
          then best_move_loop ns nid u_const moves (Some move) (Some score)
          else best_move_loop ns nid u_const moves best_move max_UCB)"

definition select_best_child ::
  "gamerules \<Rightarrow> evaluator \<Rightarrow> mctree \<Rightarrow> nat \<Rightarrow> real \<Rightarrow> error + (mctree \<times> nat option \<times> nat)" where
  "select_best_child gr forward_func t nid u_const =
     (case node_at (nodes t) nid of
        Inl e \<Rightarrow> Inl e
      | Inr self0 \<Rightarrow>
     (case (if \<not> cached_children self0 then cache_children gr forward_func t nid else Inr t) of
        Inl e \<Rightarrow> Inl e
      | Inr t1 \<Rightarrow>
     (case node_at (nodes t1) nid of
        Inl e \<Rightarrow> Inl e
      | Inr self \<Rightarrow>
          let valid_moves = get_valid_moves gr (state self);
              idcs = valid_move_idcs valid_moves
          in
          (case best_move_loop (nodes t1) nid u_const idcs None None of
             Inl e \<Rightarrow> Inl e
           | Inr None \<Rightarrow> Inl (Exception ''MCTS: move should not be None, please debug'')
           | Inr (Some best_move) \<Rightarrow>
               (case index (children self) best_move of
                  Inl e \<Rightarrow> Inl e
                | Inr child \<Rightarrow> Inr (t1, child, best_move))))))"

subsection \<open>\<^verbatim>\<open>MCTree.get_action_probs\<close>\<close>

text \<open>
  The inner loop \<^verbatim>\<open>while curr_node.visited() and not curr_node.terminal\<close>, from the node
  \<open>nid\<close>. A loop that does not end has the value \<open>None\<close>. When \<^verbatim>\<open>select_best_child\<close>
  returns an empty slot, the next test of the loop reads \<^verbatim>\<open>None.visited\<close>.
\<close>

partial_function (option) descend ::
  "gamerules \<Rightarrow> evaluator \<Rightarrow> mctree \<Rightarrow> nat \<Rightarrow> (error + (mctree \<times> nat)) option" where
  "descend gr forward_func t nid =
     (case node_at (nodes t) nid of
        Inl e \<Rightarrow> Some (Inl e)
      | Inr curr_node \<Rightarrow>
          if visited curr_node \<and> \<not> terminal curr_node then
            (case select_best_child gr forward_func t nid 1 of
               Inl e \<Rightarrow> Some (Inl e)
             | Inr selected \<Rightarrow>
                 (case fst (snd selected) of
                    None \<Rightarrow> Some (Inl AttributeError)
                  | Some child \<Rightarrow> descend gr forward_func (fst selected) child))
          else Some (Inr (t, nid)))"

text \<open>The outer loop \<^verbatim>\<open>while num_search < max_num_searches\<close>; it returns the counter too.\<close>

function search_loop ::
  "gamerules \<Rightarrow> evaluator \<Rightarrow> nat \<Rightarrow> int \<Rightarrow> int \<Rightarrow> mctree \<Rightarrow> (error + (mctree \<times> int)) option" where
  "search_loop gr forward_func frames max_num_searches num_search t =
     (if num_search < max_num_searches then
        (case descend gr forward_func t (root_ref t) of
           None \<Rightarrow> None
         | Some (Inl e) \<Rightarrow> Some (Inl e)
         | Some (Inr (t1, cur)) \<Rightarrow>
             (case node_at (nodes t1) cur of
                Inl e \<Rightarrow> Some (Inl e)
              | Inr curr_node \<Rightarrow>
                  (case back_propagate frames (nodes t1) cur (V curr_node) of
                     Inl e \<Rightarrow> Some (Inl e)
                   | Inr ns \<Rightarrow>
                       search_loop gr forward_func frames max_num_searches (num_search + 1)
                         (t1\<lparr>nodes := ns\<rparr>))))
      else Some (Inr (t, num_search)))"
  by pat_completeness auto
termination
  by (relation "measure (\<lambda>(gr, forward_func, frames, max_num_searches, num_search, t).
        nat (max_num_searches - num_search))") auto

declare search_loop.simps [simp del]

text \<open>\<^verbatim>\<open>list(map(lambda node: node.N if node is not None else 0, self.root.children))\<close>\<close>

fun visit_counts :: "node list \<Rightarrow> nat option list \<Rightarrow> error + nat list" where
  "visit_counts ns [] = Inr []"
| "visit_counts ns (None # cs) =
     (case visit_counts ns cs of Inl e \<Rightarrow> Inl e | Inr counts \<Rightarrow> Inr (0 # counts))"
| "visit_counts ns (Some c # cs) =
     (case node_at ns c of
        Inl e \<Rightarrow> Inl e
      | Inr child \<Rightarrow>
          (case visit_counts ns cs of
             Inl e \<Rightarrow> Inl e
           | Inr counts \<Rightarrow> Inr (N child # counts)))"

text \<open>
  \<^verbatim>\<open>sklearn.preprocessing.normalize(X, norm='l1')\<close> on one row, after the library's
  documentation: each entry is divided by the sum of the absolute values, a row whose sum
  is zero is left as it is, and a row without entries is refused with \<^verbatim>\<open>ValueError\<close>.
\<close>

definition normalize_l1 :: "real list \<Rightarrow> error + real list" where
  "normalize_l1 row =
     (if row = [] then Inl ValueError
      else
        let l1 = (\<Sum>x\<leftarrow>row. \<bar>x\<bar>) in
        if l1 = 0 then Inr row else Inr (map (\<lambda>x. x / l1) row))"

text \<open>The lines after the loop: from the visit counts to the vector that is returned.\<close>

definition search_probs :: "nat list \<Rightarrow> real \<Rightarrow> error + real list" where
  "search_probs counts temp =
     (if temp > 0 then normalize_l1 (map (\<lambda>n. real n powr (1 / temp)) counts)
      else if counts = [] then Inl ValueError
      else
        let best_actions = map (\<lambda>n. n = Max (set counts)) counts
        in normalize_l1 (map of_bool best_actions))"

text \<open>
  \<^verbatim>\<open>get_action_probs\<close> mutates the tree and ends with \<^verbatim>\<open>return pi\<close>. The model's result pairs
  the tree as the call leaves it with the value that is returned, which is the vector
  alone: the counter of the loop is not part of it.
\<close>

definition get_action_probs ::
  "gamerules \<Rightarrow> evaluator \<Rightarrow> nat \<Rightarrow> mctree \<Rightarrow> int \<Rightarrow> real
    \<Rightarrow> (error + (mctree \<times> real list)) option" where
  "get_action_probs gr forward_func frames t max_num_searches temp =
     (if \<not> max_num_searches > 0 then Some (Inl AssertionError)
      else
        (case search_loop gr forward_func frames max_num_searches 0 t of
           None \<Rightarrow> None
         | Some (Inl e) \<Rightarrow> Some (Inl e)
         | Some (Inr (t1, num_search)) \<Rightarrow>
             (case node_at (nodes t1) (root_ref t1) of
                Inl e \<Rightarrow> Some (Inl e)
              | Inr root_node \<Rightarrow>
                  (case visit_counts (nodes t1) (children root_node) of
                     Inl e \<Rightarrow> Some (Inl e)
                   | Inr counts \<Rightarrow>
                       (case search_probs counts temp of
                          Inl e \<Rightarrow> Some (Inl e)
                        | Inr probs \<Rightarrow> Some (Inr (t1, probs)))))))"

subsection \<open>\<^verbatim>\<open>MCTree.step\<close>\<close>

definition step :: "gamerules \<Rightarrow> evaluator \<Rightarrow> nat \<Rightarrow> mctree \<Rightarrow> nat \<Rightarrow> error + mctree" where
  "step gr forward_func frames t action =
     (case node_at (nodes t) (root_ref t) of
        Inl e \<Rightarrow> Inl e
      | Inr old_root \<Rightarrow>
     (case index (children old_root) action of
        Inl e \<Rightarrow> Inl e
      | Inr slot \<Rightarrow>
     (case (case slot of
              Some c \<Rightarrow> Inr (nodes t, c)
            | None \<Rightarrow>
                let next_state = get_next_state gr (state old_root) action;
                    next_turn = get_turn gr next_state;
                    canonical_state = get_canonical_form gr next_state next_turn
                in
                (case forward_func [canonical_state] of
                   (batch_probs, batch_values) \<Rightarrow>
                     (case index batch_probs 0 of
                        Inl e \<Rightarrow> Inl e
                      | Inr probs \<Rightarrow>
                          (case index batch_values 0 of
                             Inl e \<Rightarrow> Inl e
                           | Inr state_value \<Rightarrow>
                               Node_init gr (nodes t) None probs state_value next_state)))) of
        Inl e \<Rightarrow> Inl e
      | Inr (ns, child) \<Rightarrow>
     (case node_at ns child of
        Inl e \<Rightarrow> Inl e
      | Inr child_node \<Rightarrow>
          let ns1 = ns[child := child_node\<lparr>parent := None\<rparr>] in
          if \<not> visited (ns1 ! child) then
            (case back_propagate frames ns1 child (V (ns1 ! child)) of
               Inl e \<Rightarrow> Inl e
             | Inr ns2 \<Rightarrow> Inr (t\<lparr>nodes := ns2, root_ref := child\<rparr>))
          else Inr (t\<lparr>nodes := ns1, root_ref := child\<rparr>)))))"

section \<open>A small game and small trees, for concrete runs\<close>

text \<open>
  A one-point board: a state is an array of shape \<open>(1, 1, 1)\<close> holding one number, and
  there are \<open>1\<^sup>2 + 1 = 2\<close> actions. Action 0 adds one to the number; action 1 adds two
  and is legal while the number is at most 1. The game has ended when the number has
  reached 2 in absolute value. Player 1 is to move at the number 1, and the canonical form
  for player 1 negates the number.
\<close>

definition toy_state :: "real \<Rightarrow> ndarray" where
  "toy_state x = Array [Array [Array [Scalar x]]]"

fun toy_val :: "ndarray \<Rightarrow> real" where
  "toy_val (Array (Array (Array (Scalar x # _) # _) # _)) = x"
| "toy_val _ = 0"

definition toy_rules :: gamerules where
  "toy_rules =
     \<lparr>get_valid_moves = (\<lambda>s. [True, toy_val s \<le> 1]),
      get_action_size = (\<lambda>s. 2),
      get_next_state = (\<lambda>s a. toy_state (toy_val s + (if a = 0 then 1 else 2))),
      get_turn = (\<lambda>s. if toy_val s = 1 then 1 else 0),
      get_canonical_form = (\<lambda>s t. if t = 1 then toy_state (- toy_val s) else s),
      get_game_ended = (\<lambda>s. \<bar>toy_val s\<bar> \<ge> 2),
      get_areas = (\<lambda>s. if toy_val s > 0 then (1, 0) else (0, 1))\<rparr>"

text \<open>An evaluator: uniform priors, and a quarter of the state's number as its value.\<close>

definition toy_eval :: evaluator where
  "toy_eval batch = (map (\<lambda>s. [1 / 2, 1 / 2]) batch, map (\<lambda>s. toy_val s / 4) batch)"

text \<open>
  A root with its two children, as three calls of the constructor leave them:
  \<^verbatim>\<open>r = Node(None, ..); Node((r, 0), ..); Node((r, 1), ..)\<close>, none visited yet.
\<close>

definition toy_root :: node where
  "toy_root =
     \<lparr>parent = None, height = 0, children = [Some 1, Some 2],
      action_probs = [1 / 2, 1 / 2], state = toy_state 0, turn = 0, terminal = False,
      N = 0, V = 0, Q_sum = 0\<rparr>"

definition toy_child :: "real \<Rightarrow> real \<Rightarrow> bool \<Rightarrow> node" where
  "toy_child x v ended =
     \<lparr>parent = Some 0, height = 1, children = [None, None],
      action_probs = [1 / 2, 1 / 2], state = toy_state x, turn = 0, terminal = ended,
      N = 0, V = v, Q_sum = 0\<rparr>"

definition toy_nodes :: "node list" where
  "toy_nodes = [toy_root, toy_child (- 1) (1 / 4) False, toy_child 2 (- 1) True]"

text \<open>The same store after \<^verbatim>\<open>back_propagate(1 / 4)\<close> on the first child.\<close>

definition toy_nodes_visited :: "node list" where
  "toy_nodes_visited =
     [toy_root\<lparr>N := 1, Q_sum := - (1 / 4)\<rparr>,
      (toy_child (- 1) (1 / 4) False)\<lparr>N := 1, Q_sum := 1 / 4\<rparr>,
      toy_child 2 (- 1) True]"

text \<open>The sum of the visit counts of a node's real children, as \<^verbatim>\<open>is_leaf\<close> forms it.\<close>

definition children_visits :: "node list \<Rightarrow> nat \<Rightarrow> nat" where
  "children_visits ns nid =
     sum_list (map (\<lambda>c. N (ns ! c)) (real_children (children (ns ! nid))))"

text \<open>
  A tree whose root is terminal, has no parent, and has the child slots \<open>cs\<close>.
\<close>

definition terminal_root :: "mctree \<Rightarrow> nat option list \<Rightarrow> bool" where
  "terminal_root t cs \<longleftrightarrow>
     root_ref t < length (nodes t) \<and> terminal (nodes t ! root_ref t)
     \<and> parent (nodes t ! root_ref t) = None \<and> children (nodes t ! root_ref t) = cs"

text \<open>The tree that \<^verbatim>\<open>MCTree(state, forward_func)\<close> builds at the ended state 2.\<close>

definition toy_terminal_tree :: mctree where
  "toy_terminal_tree =
     \<lparr>nodes = [\<lparr>parent = None, height = 0, children = [None, None],
                action_probs = [1 / 2, 1 / 2], state = toy_state 2, turn = 0, terminal = True,
                N = 1, V = 1 / 2, Q_sum = 1 / 2\<rparr>],
      root_ref = 0, board_size = 1, action_size = 2\<rparr>"

text \<open>
  A root visited four times over two ended children, visited once and twice, and the same
  tree after one more search, which goes to the first child.
\<close>

definition toy_tie_tree :: mctree where
  "toy_tie_tree =
     \<lparr>nodes =
        [\<lparr>parent = None, height = 0, children = [Some 1, Some 2],
          action_probs = [1 / 2, 1 / 2], state = toy_state 1, turn = 1, terminal = False,
          N = 4, V = 0, Q_sum = 1\<rparr>,
         \<lparr>parent = Some 0, height = 1, children = [None, None],
          action_probs = [1 / 2, 1 / 2], state = toy_state 2, turn = 0, terminal = True,
          N = 1, V = - 1, Q_sum = - 1\<rparr>,
         \<lparr>parent = Some 0, height = 1, children = [None, None],
          action_probs = [1 / 2, 1 / 2], state = toy_state 3, turn = 0, terminal = True,
          N = 2, V = 1, Q_sum = 2\<rparr>],
      root_ref = 0, board_size = 1, action_size = 2\<rparr>"

definition toy_tie_tree_after :: mctree where
  "toy_tie_tree_after =
     \<lparr>nodes =
        [\<lparr>parent = None, height = 0, children = [Some 1, Some 2],
          action_probs = [1 / 2, 1 / 2], state = toy_state 1, turn = 1, terminal = False,
          N = 5, V = 0, Q_sum = 2\<rparr>,
         \<lparr>parent = Some 0, height = 1, children = [None, None],
          action_probs = [1 / 2, 1 / 2], state = toy_state 2, turn = 0, terminal = True,
          N = 2, V = - 1, Q_sum = - 2\<rparr>,
         \<lparr>parent = Some 0, height = 1, children = [None, None],
          action_probs = [1 / 2, 1 / 2], state = toy_state 3, turn = 0, terminal = True,
          N = 2, V = 1, Q_sum = 2\<rparr>],
      root_ref = 0, board_size = 1, action_size = 2\<rparr>"

text \<open>
  The score of an action as the specification words it, for exploration constant 1:
  \<open>avg_Q(a) + prior[a] * sqrt(node.N) / (1 + child.N)\<close>.
\<close>

definition spec_UCB :: "node list \<Rightarrow> nat \<Rightarrow> nat \<Rightarrow> real" where
  "spec_UCB ns nid a =
     (let self = ns ! nid; child = ns ! the (children self ! a)
      in - ((V child + Q_sum child) / (1 + real (N self)))
         + action_probs self ! a * sqrt (real (N self)) / (1 + real (N child)))"

text \<open>The comparison \<^verbatim>\<open>Q + U > max_UCB\<close>, with \<open>None\<close> for minus infinity.\<close>

definition above :: "real option \<Rightarrow> real \<Rightarrow> bool" where
  "above mx s = (case mx of None \<Rightarrow> True | Some m \<Rightarrow> s > m)"

text \<open>A root visited once whose two children have the same score.\<close>

definition toy_equal_tree :: mctree where
  "toy_equal_tree =
     \<lparr>nodes =
        [\<lparr>parent = None, height = 0, children = [Some 1, Some 2],
          action_probs = [1 / 2, 1 / 2], state = toy_state 0, turn = 0, terminal = False,
          N = 1, V = 0, Q_sum = 0\<rparr>,
         \<lparr>parent = Some 0, height = 1, children = [None, None],
          action_probs = [1 / 2, 1 / 2], state = toy_state (- 1), turn = 0, terminal = False,
          N = 0, V = 1 / 4, Q_sum = 0\<rparr>,
         \<lparr>parent = Some 0, height = 1, children = [None, None],
          action_probs = [1 / 2, 1 / 2], state = toy_state 2, turn = 0, terminal = True,
          N = 0, V = 1 / 4, Q_sum = 0\<rparr>],
      root_ref = 0, board_size = 1, action_size = 2\<rparr>"

text \<open>
  The value of the \<open>i\<close>-th successor of the flat list: the exact outcome when the successor
  has ended, the evaluator's estimate otherwise.
\<close>

definition child_value :: "gamerules \<Rightarrow> ndarray list \<Rightarrow> real list \<Rightarrow> nat \<Rightarrow> real" where
  "child_value gr cns cvals i =
     (if get_game_ended gr (cns ! i) then canonical_winning gr (cns ! i) else cvals ! i)"

text \<open>
  The position, in the concatenation of the canonical successors of a batch, of the
  successor of state \<open>i\<close> by move \<open>m\<close>.
\<close>

definition child_position :: "gamerules \<Rightarrow> ndarray list \<Rightarrow> nat \<Rightarrow> nat \<Rightarrow> nat" where
  "child_position gr states i m =
     length (concat (map (canonical_children gr) (take i states)))
     + length (filter (\<lambda>k. get_valid_moves gr (states ! i) ! k) [0..<m])"

text \<open>Evaluators that return one output too few, and one too many.\<close>

definition toy_short_eval :: evaluator where
  "toy_short_eval batch = (map (\<lambda>s. [1 / 2, 1 / 2]) (tl batch), map (\<lambda>s. toy_val s / 4) (tl batch))"

definition toy_long_eval :: evaluator where
  "toy_long_eval batch = ([1, 0] # map (\<lambda>s. [1 / 2, 1 / 2]) batch, 0 # map (\<lambda>s. toy_val s / 4) batch)"

text \<open>The same game with no legal move anywhere.\<close>

definition toy_stuck_rules :: gamerules where
  "toy_stuck_rules = toy_rules\<lparr>get_valid_moves := (\<lambda>s. [False, False])\<rparr>"

text \<open>The tree that \<^verbatim>\<open>MCTree(state, forward_func)\<close> builds at the opening state 0.\<close>

definition toy_fresh_tree :: mctree where
  "toy_fresh_tree =
     \<lparr>nodes = [\<lparr>parent = None, height = 0, children = [None, None],
                action_probs = [1 / 2, 1 / 2], state = toy_state 0, turn = 0, terminal = False,
                N = 1, V = 0, Q_sum = 0\<rparr>],
      root_ref = 0, board_size = 1, action_size = 2\<rparr>"

text \<open>That tree after \<^verbatim>\<open>step(0)\<close>: the old root, and the new root built for state 1.\<close>

definition toy_stepped_tree :: mctree where
  "toy_stepped_tree =
     \<lparr>nodes = [\<lparr>parent = None, height = 0, children = [None, None],
                action_probs = [1 / 2, 1 / 2], state = toy_state 0, turn = 0, terminal = False,
                N = 1, V = 0, Q_sum = 0\<rparr>,
               \<lparr>parent = None, height = 0, children = [None, None],
                action_probs = [1 / 2, 1 / 2], state = toy_state 1, turn = 1, terminal = False,
                N = 1, V = - (1 / 4), Q_sum = - (1 / 4)\<rparr>],
      root_ref = 1, board_size = 1, action_size = 2\<rparr>"

text \<open>The terminal tree after one search.\<close>

definition toy_terminal_tree_after :: mctree where
  "toy_terminal_tree_after =
     \<lparr>nodes = [\<lparr>parent = None, height = 0, children = [None, None],
                action_probs = [1 / 2, 1 / 2], state = toy_state 2, turn = 0, terminal = True,
                N = 2, V = 1 / 2, Q_sum = 1\<rparr>],
      root_ref = 0, board_size = 1, action_size = 2\<rparr>"

text \<open>A root visited once whose second child has the higher score.\<close>

definition toy_second_tree :: mctree where
  "toy_second_tree =
     \<lparr>nodes =
        [\<lparr>parent = None, height = 0, children = [Some 1, Some 2],
          action_probs = [1 / 2, 1 / 2], state = toy_state 0, turn = 0, terminal = False,
          N = 1, V = 0, Q_sum = 0\<rparr>,
         \<lparr>parent = Some 0, height = 1, children = [None, None],
          action_probs = [1 / 2, 1 / 2], state = toy_state (- 1), turn = 0, terminal = False,
          N = 0, V = 1 / 4, Q_sum = 0\<rparr>,
         \<lparr>parent = Some 0, height = 1, children = [None, None],
          action_probs = [1 / 2, 1 / 2], state = toy_state 2, turn = 0, terminal = True,
          N = 0, V = - 1, Q_sum = 0\<rparr>],
      root_ref = 0, board_size = 1, action_size = 2\<rparr>"

section \<open>Properties of a node\<close>

text \<open>
  C5. For a node with a child in slot \<open>a\<close>, \<^verbatim>\<open>avg_Q(a)\<close> is
  \<open>- (child.V + child.Q_sum) / (1 + node.N)\<close>, and the denominator is never zero, also
  when the child's visit count is 0: the division is by one plus the parent's count.
\<close>

theorem avg_Q_value:
  assumes "nid < length ns"
    and "a < length (children (ns ! nid))"
    and "children (ns ! nid) ! a = Some c"
    and "c < length ns"
  shows "avg_Q ns nid a = Inr (- ((V (ns ! c) + Q_sum (ns ! c)) / (1 + real (N (ns ! nid)))))
         \<and> 1 + real (N (ns ! nid)) \<noteq> 0"
  using assms by (simp add: avg_Q_def node_at_def index_def)

theorem avg_Q_value_witness:
  "avg_Q toy_nodes_visited 0 0 = Inr (- ((1 / 4 + 1 / 4) / (1 + 1)))"
  using avg_Q_value [of 0 toy_nodes_visited 0 1]
  by (simp add: toy_nodes_visited_def toy_root_def toy_child_def)

lemma child_counts_ok:
  "\<forall>c \<in> set cs. c < length ns \<Longrightarrow> child_counts ns cs = Inr (map (\<lambda>c. N (ns ! c)) cs)"
  by (induction cs) (simp_all add: node_at_def)

text \<open>
  C7 as the code has it. \<^verbatim>\<open>is_leaf\<close> tests \<^verbatim>\<open>self.N == 1\<close>, not \<^verbatim>\<open>self.N == 0\<close>: it is true
  exactly when the node has been visited exactly once, or the visit counts of its real
  children sum to at most 0.
\<close>

theorem is_leaf_value:
  assumes "nid < length ns"
    and "\<forall>c \<in> set (real_children (children (ns ! nid))). c < length ns"
  shows "is_leaf ns nid = Inr (N (ns ! nid) = 1 \<or> children_visits ns nid \<le> 0)"
  using assms by (simp add: is_leaf_def node_at_def child_counts_ok children_visits_def)

theorem is_leaf_value_witness:
  "is_leaf toy_nodes 0 = Inr True \<and> N (toy_nodes ! 0) \<noteq> 1 \<and> children_visits toy_nodes 0 = 0"
  using is_leaf_value [of 0 toy_nodes]
  by (simp add: toy_nodes_def toy_root_def toy_child_def real_children_def children_visits_def)

text \<open>
  C7 as the claim words it fails: the root of \<open>toy_nodes_visited\<close> has been visited and its
  first child has visit count 1, yet \<^verbatim>\<open>is_leaf\<close> is true there.
\<close>

theorem is_leaf_never_visited_counterexample:
  "is_leaf toy_nodes_visited 0 = Inr True
   \<and> \<not> (\<not> visited (toy_nodes_visited ! 0) \<or> children_visits toy_nodes_visited 0 \<le> 0)"
  by (simp add: is_leaf_def node_at_def toy_nodes_visited_def toy_root_def toy_child_def
      visited_def children_visits_def real_children_def)

text \<open>That store is what the public methods of \<^verbatim>\<open>Node\<close> build.\<close>

lemma toy_nodes_built:
  "Node_init toy_rules [] None [1 / 2, 1 / 2] 0 (toy_state 0)
     = Inr ([toy_root\<lparr>children := [None, None]\<rparr>], 0)"
  "Node_init toy_rules [toy_root\<lparr>children := [None, None]\<rparr>] (Some (0, 0))
       [1 / 2, 1 / 2] (1 / 4) (toy_state (- 1))
     = Inr ([toy_root\<lparr>children := [Some 1, None]\<rparr>, toy_child (- 1) (1 / 4) False], 1)"
  "Node_init toy_rules [toy_root\<lparr>children := [Some 1, None]\<rparr>, toy_child (- 1) (1 / 4) False]
       (Some (0, 1)) [1 / 2, 1 / 2] (- 1) (toy_state 2)
     = Inr (toy_nodes, 2)"
  by (simp_all add: Node_init_def Node_fields_def node_at_def toy_state_def toy_rules_def
      toy_root_def toy_child_def toy_nodes_def)

lemma toy_nodes_visited_built:
  "back_propagate 2 toy_nodes 1 (1 / 4) = Inr toy_nodes_visited"
  by (simp add: numeral_2_eq_2 node_at_def toy_nodes_def toy_nodes_visited_def toy_root_def
      toy_child_def)

inductive_cases parent_chain_NilE: "parent_chain ns nid []"
inductive_cases parent_chain_ConsE: "parent_chain ns nid (x # xs)"

lemma parent_chain_update:
  assumes "parent_chain ns nid ps"
    and "length ns' = length ns"
    and "\<forall>j<length ns. parent (ns' ! j) = parent (ns ! j)"
  shows "parent_chain ns' nid ps"
  using assms
proof (induction rule: parent_chain.induct)
  case (chain_root nid ns)
  then show ?case by (simp add: parent_chain.chain_root)
next
  case (chain_step nid ns p ps)
  have "parent_chain ns' p ps" using chain_step by blast
  moreover have "nid < length ns'" "parent (ns' ! nid) = Some p"
    using chain_step by simp_all
  ultimately show ?case by (simp add: parent_chain.chain_step)
qed

lemma parent_chain_functional:
  "parent_chain ns nid ps \<Longrightarrow> parent_chain ns nid qs \<Longrightarrow> ps = qs"
proof (induction arbitrary: qs rule: parent_chain.induct)
  case (chain_root nid ns)
  from chain_root.prems show ?case
  proof (cases rule: parent_chain.cases)
    case chain_root
    then show ?thesis by simp
  next
    case (chain_step p ps)
    with chain_root.hyps show ?thesis by simp
  qed
next
  case (chain_step nid ns p ps)
  from chain_step.prems show ?case
  proof (cases rule: parent_chain.cases)
    case chain_root
    with chain_step.hyps show ?thesis by simp
  next
    case inner: (chain_step p' ps')
    with chain_step.hyps have "p' = p" by simp
    with inner have "parent_chain ns p ps'" by simp
    then have "ps = ps'" by (rule chain_step.IH)
    with inner show ?thesis by simp
  qed
qed


lemma parent_chain_suffix:
  "parent_chain ns nid ps \<Longrightarrow> x \<in> set ps
    \<Longrightarrow> \<exists>qs. parent_chain ns x qs \<and> length qs \<le> length ps"
proof (induction rule: parent_chain.induct)
  case (chain_root nid ns)
  then have "x = nid" by simp
  with chain_root.hyps have "parent_chain ns x [nid]" by (simp add: parent_chain.chain_root)
  then show ?case by (intro exI [of _ "[nid]"]) simp
next
  case (chain_step nid ns p ps)
  show ?case
  proof (cases "x = nid")
    case True
    have "parent_chain ns nid (nid # ps)"
      using chain_step.hyps by (rule parent_chain.chain_step)
    with True show ?thesis by (intro exI [of _ "nid # ps"]) simp
  next
    case False
    with chain_step.prems have "x \<in> set ps" by simp
    with chain_step.IH obtain qs where "parent_chain ns x qs" "length qs \<le> length ps" by blast
    then show ?thesis by (intro exI [of _ qs]) simp
  qed
qed

lemma parent_chain_head_fresh:
  assumes "parent_chain ns nid (nid # ps)"
  shows "nid \<notin> set ps"
proof
  assume mem: "nid \<in> set ps"
  from assms obtain p where "parent_chain ns p ps"
  proof (cases rule: parent_chain.cases)
    case chain_root
    with mem show ?thesis by simp
  next
    case (chain_step p)
    with that show ?thesis by simp
  qed
  from parent_chain_suffix [OF this mem]
  obtain qs where qs: "parent_chain ns nid qs" "length qs \<le> length ps" by blast
  from parent_chain_functional [OF assms qs(1)] have "length qs = Suc (length ps)" by auto
  with qs(2) show False by simp
qed


text \<open>
  C6. For a node at depth \<open>k\<close> (its chain of parent links \<open>ps\<close> has \<open>k + 1\<close> nodes and ends
  at a node without parent), \<^verbatim>\<open>back_propagate(v)\<close> returns as soon as \<open>k + 1\<close> stack frames
  are available. It adds 1 to \<open>N\<close> and \<open>(-1)\<^sup>i * v\<close> to \<open>Q_sum\<close> at the \<open>i\<close>-th node of the
  chain (\<open>+v\<close> at the node, \<open>-v\<close> at its parent, \<open>+v\<close> at its grandparent, up to the
  root), changes no other field there, and leaves every other node as it was.
\<close>

theorem back_propagate_path:
  assumes "parent_chain ns nid ps" and "length ps \<le> frames"
  shows "\<exists>ns'. back_propagate frames ns nid v = Inr ns' \<and> length ns' = length ns
     \<and> (\<forall>i<length ps. ns' ! (ps ! i) =
           (ns ! (ps ! i))\<lparr>N := N (ns ! (ps ! i)) + 1,
                            Q_sum := Q_sum (ns ! (ps ! i)) + (- 1) ^ i * v\<rparr>)
     \<and> (\<forall>j<length ns. j \<notin> set ps \<longrightarrow> ns' ! j = ns ! j)"
  using assms
proof (induction ps arbitrary: ns nid frames v rule: list.induct)
  case Nil
  from Nil.prems(1) show ?case by (rule parent_chain_NilE)
next
  case (Cons x xs)
  from Cons.prems(2) obtain f where frames: "frames = Suc f" and f: "length xs \<le> f"
    by (cases frames) auto
  from Cons.prems(1) have x: "x = nid"
    by (cases rule: parent_chain.cases) simp_all
  from Cons.prems(1) have nid: "nid < length ns"
    by (cases rule: parent_chain.cases) simp_all
  define self where "self = ns ! nid"
  define ns1 where "ns1 = ns[nid := self\<lparr>N := N self + 1, Q_sum := Q_sum self + v\<rparr>]"
  have len1: "length ns1 = length ns" by (simp add: ns1_def)
  have at_nid: "ns1 ! nid = self\<lparr>N := N self + 1, Q_sum := Q_sum self + v\<rparr>"
    using nid by (simp add: ns1_def)
  have other: "ns1 ! j = ns ! j" if "j \<noteq> nid" for j
    using that by (simp add: ns1_def)
  have parents: "\<forall>j<length ns. parent (ns1 ! j) = parent (ns ! j)"
    using nid by (simp add: ns1_def self_def nth_list_update)
  from Cons.prems(1) x have split:
    "(parent self = None \<and> xs = []) \<or> (\<exists>p. parent self = Some p \<and> parent_chain ns p xs)"
    unfolding self_def by (cases rule: parent_chain.cases) simp_all
  then show ?case
  proof (elim disjE conjE exE)
    assume none: "parent self = None" and nil: "xs = []"
    have "back_propagate frames ns nid v = Inr ns1"
      using none nid by (simp add: frames node_at_def ns1_def self_def)
    moreover have "\<forall>i<length (x # xs). ns1 ! ((x # xs) ! i) =
           (ns ! ((x # xs) ! i))\<lparr>N := N (ns ! ((x # xs) ! i)) + 1,
                            Q_sum := Q_sum (ns ! ((x # xs) ! i)) + (- 1) ^ i * v\<rparr>"
      using nil x at_nid by (simp add: self_def)
    moreover have "\<forall>j<length ns. j \<notin> set (x # xs) \<longrightarrow> ns1 ! j = ns ! j"
      using x other by simp
    ultimately show ?thesis using len1 by (intro exI [of _ ns1]) simp
  next
    fix p
    assume some: "parent self = Some p" and chain: "parent_chain ns p xs"
    have fresh: "nid \<notin> set xs"
      using Cons.prems(1) x by (simp add: parent_chain_head_fresh)
    have chain1: "parent_chain ns1 p xs"
      using chain len1 parents by (rule parent_chain_update)
    from Cons.IH [OF chain1 f, of "- v"] obtain ns' where
      run: "back_propagate f ns1 p (- v) = Inr ns'" and len: "length ns' = length ns1"
      and path: "\<forall>i<length xs. ns' ! (xs ! i) =
           (ns1 ! (xs ! i))\<lparr>N := N (ns1 ! (xs ! i)) + 1,
                             Q_sum := Q_sum (ns1 ! (xs ! i)) + (- 1) ^ i * (- v)\<rparr>"
      and off: "\<forall>j<length ns1. j \<notin> set xs \<longrightarrow> ns' ! j = ns1 ! j"
      by (elim exE conjE)
    have bp: "back_propagate frames ns nid v = Inr ns'"
      using some nid run by (simp add: frames node_at_def ns1_def self_def)
    have head: "ns' ! nid = self\<lparr>N := N self + 1, Q_sum := Q_sum self + v\<rparr>"
      using off fresh nid len1 at_nid by simp
    have on_path: "ns' ! ((x # xs) ! i) =
           (ns ! ((x # xs) ! i))\<lparr>N := N (ns ! ((x # xs) ! i)) + 1,
                            Q_sum := Q_sum (ns ! ((x # xs) ! i)) + (- 1) ^ i * v\<rparr>"
      if "i < length (x # xs)" for i
    proof (cases i)
      case 0
      then show ?thesis using head x by (simp add: self_def)
    next
      case (Suc k)
      with that have k: "k < length xs" by simp
      then have "xs ! k \<in> set xs" by simp
      with fresh have "xs ! k \<noteq> nid" by blast
      then have "ns1 ! (xs ! k) = ns ! (xs ! k)" by (rule other)
      with path k show ?thesis by (simp add: Suc)
    qed
    have off_path: "ns' ! j = ns ! j" if "j < length ns" "j \<notin> set (x # xs)" for j
    proof -
      from that x have "j \<noteq> nid" "j \<notin> set xs" by simp_all
      with off that(1) len1 have "ns' ! j = ns1 ! j" by simp
      with \<open>j \<noteq> nid\<close> other show ?thesis by simp
    qed
    show ?thesis
    proof (intro exI [of _ ns'] conjI)
      show "back_propagate frames ns nid v = Inr ns'" by (rule bp)
      show "length ns' = length ns" using len len1 by simp
      show "\<forall>i<length (x # xs). ns' ! ((x # xs) ! i) =
           (ns ! ((x # xs) ! i))\<lparr>N := N (ns ! ((x # xs) ! i)) + 1,
                            Q_sum := Q_sum (ns ! ((x # xs) ! i)) + (- 1) ^ i * v\<rparr>"
        by (intro allI impI) (rule on_path)
      show "\<forall>j<length ns. j \<notin> set (x # xs) \<longrightarrow> ns' ! j = ns ! j"
        by (intro allI impI) (rule off_path)
    qed
  qed
qed

lemma toy_chain: "parent_chain toy_nodes 1 [1, 0]"
proof -
  have "parent_chain toy_nodes 0 [0]"
    by (rule parent_chain.chain_root) (simp_all add: toy_nodes_def toy_root_def)
  then show ?thesis
    by (rule parent_chain.chain_step [rotated 2]) (simp_all add: toy_nodes_def toy_child_def)
qed

theorem back_propagate_path_witness:
  "parent_chain toy_nodes 1 [1, 0] \<and> back_propagate 2 toy_nodes 1 (1 / 4) = Inr toy_nodes_visited"
  using back_propagate_path [OF toy_chain, of 2 "1 / 4"] toy_chain toy_nodes_visited_built
  by simp

section \<open>Properties of the search\<close>

lemma descend_stops:
  assumes "node_at (nodes t) nid = Inr r" and "\<not> visited r \<or> terminal r"
  shows "descend gr ff t nid = Some (Inr (t, nid))"
  using assms by (subst descend.simps) auto

lemma back_propagate_root:
  assumes "nid < length ns" and "parent (ns ! nid) = None"
  shows "back_propagate (Suc f) ns nid v =
    Inr (ns[nid := (ns ! nid)\<lparr>N := N (ns ! nid) + 1, Q_sum := Q_sum (ns ! nid) + v\<rparr>])"
  using assms by (simp add: node_at_def)

lemma visit_counts_all_None:
  "\<forall>c \<in> set cs. c = None \<Longrightarrow> visit_counts ns cs = Inr (replicate (length cs) 0)"
  by (induction cs) simp_all

lemma visit_counts_nth:
  "visit_counts ns cs = Inr counts \<Longrightarrow>
    length counts = length cs \<and>
    (\<forall>a<length cs. counts ! a = (case cs ! a of None \<Rightarrow> 0 | Some c \<Rightarrow> N (ns ! c)))"
proof (induction ns cs arbitrary: counts rule: visit_counts.induct)
  case (1 ns)
  then show ?case by simp
next
  case (2 ns cs)
  then obtain rest where rest: "visit_counts ns cs = Inr rest" and counts: "counts = 0 # rest"
    by (auto split: sum.splits)
  from "2.IH" [OF rest] show ?case
    by (auto simp: counts nth_Cons split: nat.splits)
next
  case (3 ns c cs)
  then obtain rest where rest: "visit_counts ns cs = Inr rest"
    and counts: "counts = N (ns ! c) # rest" and c: "c < length ns"
    by (auto simp: node_at_def split: sum.splits if_splits)
  have "node_at ns c = Inr (ns ! c)" using c by (simp add: node_at_def)
  from "3.IH" [OF this rest] show ?case
    by (auto simp: counts nth_Cons split: nat.splits)
qed

lemma search_loop_terminal_root:
  assumes "terminal_root t cs"
  shows "\<exists>t'. search_loop gr ff (Suc f) mx num t = Some (Inr (t', max mx num))
           \<and> terminal_root t' cs \<and> root_ref t' = root_ref t"
  using assms
proof (induction "nat (mx - num)" arbitrary: num t)
  case 0
  then have "\<not> num < mx" by simp
  then have "search_loop gr ff (Suc f) mx num t = Some (Inr (t, num))"
    by (subst search_loop.simps) simp
  with 0 \<open>\<not> num < mx\<close> show ?case by (intro exI [of _ t]) (simp add: max_def)
next
  case (Suc k)
  then have lt: "num < mx" by simp
  let ?r = "nodes t ! root_ref t"
  from Suc.prems have root: "node_at (nodes t) (root_ref t) = Inr ?r" and trm: "terminal ?r"
    and par: "parent ?r = None" and len: "root_ref t < length (nodes t)"
    by (simp_all add: terminal_root_def node_at_def)
  have d: "descend gr ff t (root_ref t) = Some (Inr (t, root_ref t))"
    using root trm by (intro descend_stops) auto
  let ?ns = "(nodes t)[root_ref t := ?r\<lparr>N := N ?r + 1, Q_sum := Q_sum ?r + V ?r\<rparr>]"
  let ?t1 = "t\<lparr>nodes := ?ns\<rparr>"
  have bp: "back_propagate (Suc f) (nodes t) (root_ref t) (V ?r) = Inr ?ns"
    using len par by (rule back_propagate_root)
  have step: "search_loop gr ff (Suc f) mx num t = search_loop gr ff (Suc f) mx (num + 1) ?t1"
    using lt d root bp by (subst search_loop.simps) simp
  have inv: "terminal_root ?t1 cs"
    using Suc.prems by (simp add: terminal_root_def)
  have "k = nat (mx - (num + 1))" using Suc.hyps(2) by simp
  from Suc.hyps(1) [OF this inv] obtain t' where
    "search_loop gr ff (Suc f) mx (num + 1) ?t1 = Some (Inr (t', max mx (num + 1)))"
    "terminal_root t' cs" "root_ref t' = root_ref ?t1" by (elim exE conjE)
  with step lt show ?case by (intro exI [of _ t']) (simp add: max_def)
qed

lemma sum_list_replicate_real: "sum_list (replicate n (x::real)) = real n * x"
  by (induction n) (simp_all add: algebra_simps)

lemma search_probs_zeros_pos:
  assumes "0 < temp" and "0 < n"
  shows "search_probs (replicate n 0) temp = Inr (replicate n 0)"
  using assms by (simp add: search_probs_def normalize_l1_def map_replicate_const sum_list_replicate_real)

lemma search_probs_zeros_nonpos:
  assumes "0 < n" and "\<not> 0 < temp"
  shows "search_probs (replicate n 0) temp = Inr (replicate n (1 / real n))"
  using assms by (simp add: search_probs_def normalize_l1_def sum_list_replicate_real)

text \<open>
  C10. A terminal root without parent whose child slots are all empty: for every
  \<open>max_num_searches > 0\<close> (and at least one stack frame for \<^verbatim>\<open>back_propagate\<close>)
  \<^verbatim>\<open>get_action_probs\<close> returns, the root is still terminal with the same empty slots, so the
  visit counts are all 0; for a positive temperature the result is the zero vector, whose
  sum is 0, and for temperature 0 it is \<open>1 / action_size\<close> at every action.
\<close>

theorem get_action_probs_terminal_root:
  assumes "terminal_root t cs" and "\<forall>c \<in> set cs. c = None" and "cs \<noteq> []"
    and "0 < mx" and "0 < frames"
  shows "\<exists>t' probs. get_action_probs gr ff frames t mx temp = Some (Inr (t', probs))
           \<and> terminal_root t' cs
           \<and> (0 < temp \<longrightarrow> probs = replicate (length cs) 0 \<and> sum_list probs = 0)
           \<and> (temp = 0 \<longrightarrow> probs = replicate (length cs) (1 / real (length cs)))"
proof -
  from \<open>0 < frames\<close> obtain f where frames: "frames = Suc f" by (cases frames) auto
  from search_loop_terminal_root [OF assms(1), of gr ff f mx 0] obtain t' where
    run: "search_loop gr ff (Suc f) mx 0 t = Some (Inr (t', max mx 0))"
    and inv: "terminal_root t' cs" by (elim exE conjE)
  let ?r = "nodes t' ! root_ref t'"
  from inv have root: "node_at (nodes t') (root_ref t') = Inr ?r" and cs: "children ?r = cs"
    by (simp_all add: terminal_root_def node_at_def)
  have counts: "visit_counts (nodes t') (children ?r) = Inr (replicate (length cs) 0)"
    using assms(2) cs by (simp add: visit_counts_all_None)
  have n: "0 < length cs" using assms(3) by simp
  show ?thesis
  proof (cases "0 < temp")
    case True
    have "get_action_probs gr ff frames t mx temp = Some (Inr (t', replicate (length cs) 0))"
      using assms(4) run root counts search_probs_zeros_pos [OF True n]
      by (simp add: get_action_probs_def frames)
    with inv True show ?thesis by (simp add: sum_list_replicate_real)
  next
    case False
    have "get_action_probs gr ff frames t mx temp
            = Some (Inr (t', replicate (length cs) (1 / real (length cs))))"
      using assms(4) run root counts search_probs_zeros_nonpos [OF n False]
      by (simp add: get_action_probs_def frames)
    with inv False show ?thesis by simp
  qed
qed

lemma toy_terminal_tree_built:
  "MCTree_init toy_rules toy_eval 1 (toy_state 2) = Inr toy_terminal_tree"
  by (simp add: MCTree_init_def toy_eval_def index_def Node_init_def Node_fields_def
      toy_state_def toy_rules_def visited_def node_at_def toy_terminal_tree_def)

theorem get_action_probs_terminal_root_witness:
  "terminal_root toy_terminal_tree [None, None]
   \<and> (\<exists>t'. get_action_probs toy_rules toy_eval 1 toy_terminal_tree 3 1 = Some (Inr (t', [0, 0])))
   \<and> (\<exists>t'. get_action_probs toy_rules toy_eval 1 toy_terminal_tree 3 0
               = Some (Inr (t', [1 / 2, 1 / 2])))"
proof -
  have tr: "terminal_root toy_terminal_tree [None, None]"
    by (simp add: terminal_root_def toy_terminal_tree_def)
  from get_action_probs_terminal_root [OF tr, of 3 1 toy_rules toy_eval 1]
  have pos: "\<exists>t'. get_action_probs toy_rules toy_eval 1 toy_terminal_tree 3 1
                     = Some (Inr (t', [0, 0]))"
    by (auto simp: numeral_2_eq_2)
  from get_action_probs_terminal_root [OF tr, of 3 1 toy_rules toy_eval 0]
  have zero: "\<exists>t'. get_action_probs toy_rules toy_eval 1 toy_terminal_tree 3 0
                     = Some (Inr (t', [1 / 2, 1 / 2]))"
    by (auto simp: numeral_2_eq_2)
  from tr pos zero show ?thesis by simp
qed

lemma sum_list_of_bool:
  "(\<Sum>x\<leftarrow>xs. of_bool (P x) :: real) = real (length (filter P xs))"
  by (induction xs) simp_all

lemma sum_list_abs_powr:
  "(\<Sum>x\<leftarrow>map (\<lambda>n. real n powr e) xs. \<bar>x\<bar>) = (\<Sum>n\<leftarrow>xs. real n powr e)"
  by (induction xs) simp_all

lemma sum_list_powr_nonneg: "0 \<le> (\<Sum>n\<leftarrow>xs. real n powr e)"
  by (induction xs) simp_all

lemma sum_list_powr_zero_all:
  "(\<Sum>n\<leftarrow>xs. real n powr e) = 0 \<Longrightarrow> \<forall>n \<in> set xs. real n powr e = 0"
proof (induction xs)
  case Nil
  then show ?case by simp
next
  case (Cons x xs)
  have "0 \<le> real x powr e" by simp
  moreover have "0 \<le> (\<Sum>n\<leftarrow>xs. real n powr e)" by (rule sum_list_powr_nonneg)
  moreover from Cons.prems have "real x powr e + (\<Sum>n\<leftarrow>xs. real n powr e) = 0" by simp
  ultimately have "real x powr e = 0" "(\<Sum>n\<leftarrow>xs. real n powr e) = 0"
    by (simp_all add: add_nonneg_eq_0_iff)
  with Cons.IH show ?case by simp
qed

lemma sum_list_powr_zero:
  assumes "(\<Sum>n\<leftarrow>xs. real n powr e) = 0" and "a < length xs"
  shows "real (xs ! a) powr e = 0"
  using sum_list_powr_zero_all [OF assms(1)] assms(2) by simp

lemma search_probs_pos:
  assumes "0 < temp" and "search_probs counts temp = Inr probs"
  shows "length probs = length counts \<and>
    (\<forall>a<length counts.
       ((\<Sum>n\<leftarrow>counts. real n powr (1 / temp)) \<noteq> 0 \<longrightarrow>
          probs ! a = real (counts ! a) powr (1 / temp) / (\<Sum>n\<leftarrow>counts. real n powr (1 / temp)))
       \<and> ((\<Sum>n\<leftarrow>counts. real n powr (1 / temp)) = 0 \<longrightarrow> probs ! a = 0))"
  using assms
  by (auto simp: search_probs_def normalize_l1_def Let_def sum_list_abs_powr o_def
      sum_list_powr_zero split: if_splits)

lemma search_probs_nonpos:
  assumes "\<not> 0 < temp" and "search_probs counts temp = Inr probs"
  shows "length probs = length counts \<and>
    (\<forall>a<length counts.
       probs ! a = (if counts ! a = Max (set counts)
                    then 1 / real (length (filter (\<lambda>n. n = Max (set counts)) counts))
                    else 0))"
proof -
  from assms have ne: "counts \<noteq> []" by (auto simp: search_probs_def split: if_splits)
  then have "Max (set counts) \<in> set counts" by simp
  then have "filter (\<lambda>n. n = Max (set counts)) counts \<noteq> []"
    by (simp add: filter_empty_conv)
  then have pos: "real (length (filter (\<lambda>n. n = Max (set counts)) counts)) \<noteq> 0" by simp
  from assms ne pos have
    "probs = map (\<lambda>x. x / real (length (filter (\<lambda>n. n = Max (set counts)) counts)))
               (map (\<lambda>n. of_bool (n = Max (set counts))) counts)"
    by (simp add: search_probs_def normalize_l1_def Let_def sum_list_of_bool o_def)
  then show ?thesis by simp
qed

text \<open>
  C4. Whenever \<^verbatim>\<open>get_action_probs\<close> returns, with \<open>counts\<close> the visit counts of the root's
  children after the searches (0 for an empty slot): for a positive temperature the result
  is \<open>counts powr (1 / temp)\<close> divided by its sum (and all zero when that sum is zero); for
  temperature 0 every action whose count is the maximum gets one over the number of such
  actions, and every other action gets 0.
\<close>

theorem get_action_probs_distribution:
  assumes "get_action_probs gr ff frames t mx temp = Some (Inr (t', probs))"
  shows "\<exists>root_node counts.
           node_at (nodes t') (root_ref t') = Inr root_node
           \<and> length counts = length (children root_node)
           \<and> (\<forall>a<length counts. counts ! a =
                 (case children root_node ! a of None \<Rightarrow> 0 | Some c \<Rightarrow> N (nodes t' ! c)))
           \<and> length probs = length counts
           \<and> (0 < temp \<longrightarrow> (\<forall>a<length counts.
                 ((\<Sum>n\<leftarrow>counts. real n powr (1 / temp)) \<noteq> 0 \<longrightarrow>
                    probs ! a = real (counts ! a) powr (1 / temp)
                                / (\<Sum>n\<leftarrow>counts. real n powr (1 / temp)))
                 \<and> ((\<Sum>n\<leftarrow>counts. real n powr (1 / temp)) = 0 \<longrightarrow> probs ! a = 0)))
           \<and> (temp = 0 \<longrightarrow> (\<forall>a<length counts.
                 probs ! a = (if counts ! a = Max (set counts)
                    then 1 / real (length (filter (\<lambda>n. n = Max (set counts)) counts))
                    else 0)))"
proof -
  from assms obtain num_search root_node counts where
    "search_loop gr ff frames mx 0 t = Some (Inr (t', num_search))"
    and root: "node_at (nodes t') (root_ref t') = Inr root_node"
    and counts: "visit_counts (nodes t') (children root_node) = Inr counts"
    and probs: "search_probs counts temp = Inr probs"
    by (auto simp: get_action_probs_def split: if_splits option.splits sum.splits)
  note vc = visit_counts_nth [OF counts]
  have pos: "0 < temp \<Longrightarrow> length probs = length counts \<and> (\<forall>a<length counts.
                 ((\<Sum>n\<leftarrow>counts. real n powr (1 / temp)) \<noteq> 0 \<longrightarrow>
                    probs ! a = real (counts ! a) powr (1 / temp)
                                / (\<Sum>n\<leftarrow>counts. real n powr (1 / temp)))
                 \<and> ((\<Sum>n\<leftarrow>counts. real n powr (1 / temp)) = 0 \<longrightarrow> probs ! a = 0))"
    using probs by (rule search_probs_pos [rotated])
  have nonpos: "\<not> 0 < temp \<Longrightarrow> length probs = length counts \<and> (\<forall>a<length counts.
                 probs ! a = (if counts ! a = Max (set counts)
                    then 1 / real (length (filter (\<lambda>n. n = Max (set counts)) counts))
                    else 0))"
    using probs by (rule search_probs_nonpos [rotated])
  have len: "length probs = length counts"
    using pos nonpos by (cases "0 < temp") simp_all
  show ?thesis
  proof (intro exI [of _ root_node] exI [of _ counts] conjI)
    show "node_at (nodes t') (root_ref t') = Inr root_node" by (rule root)
    show "length counts = length (children root_node)" using vc by simp
    show "\<forall>a<length counts. counts ! a =
            (case children root_node ! a of None \<Rightarrow> 0 | Some c \<Rightarrow> N (nodes t' ! c))"
      using vc by simp
    show "length probs = length counts" by (rule len)
    show "0 < temp \<longrightarrow> (\<forall>a<length counts.
                 ((\<Sum>n\<leftarrow>counts. real n powr (1 / temp)) \<noteq> 0 \<longrightarrow>
                    probs ! a = real (counts ! a) powr (1 / temp)
                                / (\<Sum>n\<leftarrow>counts. real n powr (1 / temp)))
                 \<and> ((\<Sum>n\<leftarrow>counts. real n powr (1 / temp)) = 0 \<longrightarrow> probs ! a = 0))"
      using pos by simp
    show "temp = 0 \<longrightarrow> (\<forall>a<length counts.
                 probs ! a = (if counts ! a = Max (set counts)
                    then 1 / real (length (filter (\<lambda>n. n = Max (set counts)) counts))
                    else 0))"
      using nonpos by simp
  qed
qed

lemma toy_tie_select:
  "select_best_child toy_rules toy_eval toy_tie_tree 0 1 = Inr (toy_tie_tree, Some 1, 0)"
  by (simp add: select_best_child_def node_at_def toy_tie_tree_def cached_children_def
      toy_rules_def toy_state_def valid_move_idcs_def UCB_def avg_Q_def index_def)

lemma toy_tie_descend:
  "descend toy_rules toy_eval toy_tie_tree 0 = Some (Inr (toy_tie_tree, 1))"
proof -
  have child: "descend toy_rules toy_eval toy_tie_tree (Suc 0) = Some (Inr (toy_tie_tree, Suc 0))"
    by (rule descend_stops [where r = "nodes toy_tie_tree ! 1"])
       (simp_all add: node_at_def toy_tie_tree_def)
  have root: "node_at (nodes toy_tie_tree) 0 = Inr (nodes toy_tie_tree ! 0)"
    by (simp add: node_at_def toy_tie_tree_def)
  have go: "visited (nodes toy_tie_tree ! 0) \<and> \<not> terminal (nodes toy_tie_tree ! 0)"
    by (simp add: visited_def toy_tie_tree_def)
  have sel: "select_best_child toy_rules toy_eval toy_tie_tree 0 1
               = Inr (toy_tie_tree, Some (Suc 0), 0)"
    using toy_tie_select by simp
  show ?thesis
    by (subst descend.simps) (simp add: root go sel child)
qed

lemma toy_tie_back_propagate:
  "back_propagate 2 (nodes toy_tie_tree) (Suc 0) (- 1) = Inr (nodes toy_tie_tree_after)"
  by (simp add: numeral_2_eq_2 node_at_def toy_tie_tree_def toy_tie_tree_after_def)

lemma toy_tie_search:
  "search_loop toy_rules toy_eval 2 1 0 toy_tie_tree = Some (Inr (toy_tie_tree_after, 1))"
proof -
  have after: "toy_tie_tree\<lparr>nodes := nodes toy_tie_tree_after\<rparr> = toy_tie_tree_after"
    by (simp add: toy_tie_tree_def toy_tie_tree_after_def)
  have child: "node_at (nodes toy_tie_tree) (Suc 0) = Inr (nodes toy_tie_tree ! Suc 0)"
    "V (nodes toy_tie_tree ! Suc 0) = - 1"
    by (simp_all add: node_at_def toy_tie_tree_def)
  have r: "root_ref toy_tie_tree = 0" by (simp add: toy_tie_tree_def)
  have d: "descend toy_rules toy_eval toy_tie_tree 0 = Some (Inr (toy_tie_tree, Suc 0))"
    using toy_tie_descend by simp
  have last: "search_loop toy_rules toy_eval 2 1 1 toy_tie_tree_after
                = Some (Inr (toy_tie_tree_after, 1))"
    by (subst search_loop.simps) simp
  show ?thesis
    by (subst search_loop.simps)
       (simp add: r d child toy_tie_back_propagate after last)
qed

theorem get_action_probs_distribution_witness:
  "get_action_probs toy_rules toy_eval 2 toy_tie_tree 1 0
     = Some (Inr (toy_tie_tree_after, [1 / 2, 1 / 2]))
   \<and> N (nodes toy_tie_tree_after ! 1) = 2 \<and> N (nodes toy_tie_tree_after ! 2) = 2"
proof -
  have run: "get_action_probs toy_rules toy_eval 2 toy_tie_tree 1 0
     = Some (Inr (toy_tie_tree_after, [1 / 2, 1 / 2]))"
    by (simp add: get_action_probs_def toy_tie_search node_at_def toy_tie_tree_after_def
        search_probs_def normalize_l1_def)
  from get_action_probs_distribution [OF run] run show ?thesis
    by (simp add: toy_tie_tree_after_def)
qed

section \<open>Properties of the selection\<close>

lemma UCB_spec:
  assumes "UCB ns nid 1 a = Inr s"
  shows "nid < length ns \<and> (\<exists>c. children (ns ! nid) ! a = Some c) \<and> s = spec_UCB ns nid a"
  using assms
  by (auto simp: UCB_def avg_Q_def node_at_def index_def spec_UCB_def Let_def
      split: sum.splits if_splits option.splits)

lemma best_move_loop_scores:
  "best_move_loop ns nid u moves best mx = Inr res \<Longrightarrow>
     \<forall>m \<in> set moves. \<exists>s. UCB ns nid u m = Inr s"
  by (induction moves arbitrary: best mx) (auto split: sum.splits if_splits)

lemma best_move_loop_first_max:
  assumes "best_move_loop ns nid u moves best mx = Inr res"
    and "\<forall>m \<in> set moves. UCB ns nid u m = Inr (sc m)"
  shows "if \<forall>m \<in> set moves. \<not> above mx (sc m) then res = best
         else \<exists>j<length moves. res = Some (moves ! j) \<and> above mx (sc (moves ! j))
                \<and> (\<forall>i<j. sc (moves ! i) < sc (moves ! j))
                \<and> (\<forall>i<length moves. sc (moves ! i) \<le> sc (moves ! j))"
  using assms
proof (induction moves arbitrary: best mx)
  case Nil
  then show ?case by simp
next
  case (Cons m ms)
  have sm: "UCB ns nid u m = Inr (sc m)" using Cons.prems(2) by simp
  have rest: "\<forall>m \<in> set ms. UCB ns nid u m = Inr (sc m)" using Cons.prems(2) by simp
  show ?case
  proof (cases "above mx (sc m)")
    case True
    with Cons.prems(1) sm have run:
      "best_move_loop ns nid u ms (Some m) (Some (sc m)) = Inr res"
      by (simp add: above_def)
    note IH = Cons.IH [OF run rest]
    show ?thesis
    proof (cases "\<forall>k \<in> set ms. \<not> above (Some (sc m)) (sc k)")
      case none: True
      with IH have res: "res = Some m" by simp
      from none have le: "\<forall>k \<in> set ms. sc k \<le> sc m" by (auto simp: above_def)
      have "\<exists>j<length (m # ms). res = Some ((m # ms) ! j) \<and> above mx (sc ((m # ms) ! j))
                \<and> (\<forall>i<j. sc ((m # ms) ! i) < sc ((m # ms) ! j))
                \<and> (\<forall>i<length (m # ms). sc ((m # ms) ! i) \<le> sc ((m # ms) ! j))"
        using res True le by (intro exI [of _ 0]) (auto simp: nth_Cons split: nat.splits)
      with True show ?thesis by auto
    next
      case some: False
      with IH obtain j where j: "j < length ms" "res = Some (ms ! j)"
        "above (Some (sc m)) (sc (ms ! j))"
        "\<forall>i<j. sc (ms ! i) < sc (ms ! j)" "\<forall>i<length ms. sc (ms ! i) \<le> sc (ms ! j)"
        by auto
      from j(3) have gt: "sc m < sc (ms ! j)" by (simp add: above_def)
      with True have ab: "above mx (sc (ms ! j))" by (auto simp: above_def split: option.splits)
      have "\<exists>j<length (m # ms). res = Some ((m # ms) ! j) \<and> above mx (sc ((m # ms) ! j))
                \<and> (\<forall>i<j. sc ((m # ms) ! i) < sc ((m # ms) ! j))
                \<and> (\<forall>i<length (m # ms). sc ((m # ms) ! i) \<le> sc ((m # ms) ! j))"
        using j gt ab
        by (intro exI [of _ "Suc j"]) (auto simp: nth_Cons less_Suc_eq_0_disj split: nat.splits)
      with True show ?thesis by auto
    qed
  next
    case False
    with Cons.prems(1) sm have run: "best_move_loop ns nid u ms best mx = Inr res"
      by (simp add: above_def)
    note IH = Cons.IH [OF run rest]
    show ?thesis
    proof (cases "\<forall>k \<in> set ms. \<not> above mx (sc k)")
      case True
      with IH False show ?thesis by simp
    next
      case some: False
      with IH obtain j where j: "j < length ms" "res = Some (ms ! j)"
        "above mx (sc (ms ! j))"
        "\<forall>i<j. sc (ms ! i) < sc (ms ! j)" "\<forall>i<length ms. sc (ms ! i) \<le> sc (ms ! j)"
        by auto
      from False j(3) have gt: "sc m < sc (ms ! j)"
        by (auto simp: above_def split: option.splits)
      have "\<exists>j<length (m # ms). res = Some ((m # ms) ! j) \<and> above mx (sc ((m # ms) ! j))
                \<and> (\<forall>i<j. sc ((m # ms) ! i) < sc ((m # ms) ! j))
                \<and> (\<forall>i<length (m # ms). sc ((m # ms) ! i) \<le> sc ((m # ms) ! j))"
        using j gt
        by (intro exI [of _ "Suc j"]) (auto simp: nth_Cons less_Suc_eq_0_disj split: nat.splits)
      moreover have "\<not> (\<forall>k \<in> set (m # ms). \<not> above mx (sc k))" using some by simp
      ultimately show ?thesis by auto
    qed
  qed
qed

lemma valid_move_idcs_ascending: "sorted_wrt (<) (valid_move_idcs vm)"
  by (simp add: valid_move_idcs_def sorted_wrt_filter)

lemma ascending_position:
  assumes "sorted_wrt (<) (xs :: nat list)" and "i < length xs" and "j < length xs"
    and "xs ! i < xs ! j"
  shows "i < j"
proof (rule ccontr)
  assume "\<not> i < j"
  then have "j = i \<or> j < i" by auto
  then show False
  proof
    assume "j = i"
    with assms(4) show False by simp
  next
    assume "j < i"
    with assms(1,2) have "xs ! j < xs ! i" by (simp add: sorted_wrt_nth_less)
    with assms(4) show False by simp
  qed
qed

text \<open>
  The positions that the scan visits are exactly the actions whose legality flag is set.
\<close>

lemma valid_move_idcs_set:
  "b \<in> set (valid_move_idcs vm) \<longleftrightarrow> b < length vm \<and> vm ! b"
  by (auto simp: valid_move_idcs_def)

text \<open>
  C3. When \<^verbatim>\<open>select_best_child(node)\<close> (exploration constant 1) returns action \<open>a\<close>: the
  legality flag of \<open>a\<close> in \<^verbatim>\<open>get_valid_moves(node.state)\<close> is set and the returned child is the
  one in slot \<open>a\<close>; every action \<open>b\<close> whose legality flag is set has a child and its score
  is \<open>avg_Q(b) + prior[b] * sqrt(node.N) / (1 + child.N)\<close>; no such action scores above \<open>a\<close>,
  and every such action with a smaller index scores strictly below \<open>a\<close>: among equal
  scores the lowest index is returned.
\<close>

theorem select_best_child_first_max:
  assumes "select_best_child gr ff t nid 1 = Inr (t', child, a)"
  shows "nid < length (nodes t')
     \<and> a < length (get_valid_moves gr (state (nodes t' ! nid)))
     \<and> get_valid_moves gr (state (nodes t' ! nid)) ! a
     \<and> child = children (nodes t' ! nid) ! a
     \<and> (\<forall>b<length (get_valid_moves gr (state (nodes t' ! nid))).
           get_valid_moves gr (state (nodes t' ! nid)) ! b \<longrightarrow>
           (\<exists>c. children (nodes t' ! nid) ! b = Some c)
           \<and> UCB (nodes t') nid 1 b = Inr (spec_UCB (nodes t') nid b)
           \<and> spec_UCB (nodes t') nid b \<le> spec_UCB (nodes t') nid a
           \<and> (b < a \<longrightarrow> spec_UCB (nodes t') nid b < spec_UCB (nodes t') nid a))"
proof -
  define ns where "ns = nodes t'"
  define vm where "vm = get_valid_moves gr (state (ns ! nid))"
  define idcs where "idcs = valid_move_idcs vm"
  from assms have nid: "nid < length ns"
    and loop: "best_move_loop ns nid 1 idcs None None = Inr (Some a)"
    and child: "child = children (ns ! nid) ! a"
    by (auto simp: select_best_child_def node_at_def index_def Let_def ns_def idcs_def vm_def
        split: sum.splits if_splits option.splits)
  define sc where "sc = spec_UCB ns nid"
  have scores: "\<forall>m \<in> set idcs. UCB ns nid 1 m = Inr (sc m)"
             "\<forall>m \<in> set idcs. \<exists>c. children (ns ! nid) ! m = Some c"
    using best_move_loop_scores [OF loop] UCB_spec [of ns nid] by (auto simp: sc_def)
  have ne: "idcs \<noteq> []" using loop by auto
  then have "\<not> (\<forall>m \<in> set idcs. \<not> above None (sc m))" by (auto simp: above_def)
  with best_move_loop_first_max [OF loop scores(1)] obtain j where
    j: "j < length idcs" "a = idcs ! j" "\<forall>i<j. sc (idcs ! i) < sc (idcs ! j)"
       "\<forall>i<length idcs. sc (idcs ! i) \<le> sc (idcs ! j)"
    by auto
  have asc: "sorted_wrt (<) idcs" by (simp add: idcs_def valid_move_idcs_ascending)
  have cmp: "sc b \<le> sc a \<and> (b < a \<longrightarrow> sc b < sc a)" if "b \<in> set idcs" for b
  proof -
    from that obtain i where i: "i < length idcs" "b = idcs ! i" by (auto simp: in_set_conv_nth)
    with j(4) have "sc b \<le> sc a" by (simp add: j(2))
    moreover have "sc b < sc a" if "b < a"
    proof -
      from asc i(1) j(1) that have "i < j" unfolding i(2) j(2) by (rule ascending_position)
      with j(3) show ?thesis by (simp add: i(2) j(2))
    qed
    ultimately show ?thesis by simp
  qed
  have legal: "b \<in> set idcs \<longleftrightarrow> b < length vm \<and> vm ! b" for b
    by (simp add: idcs_def valid_move_idcs_set)
  have "a \<in> set idcs" using j by simp
  then have a: "a < length vm" "vm ! a" by (simp_all add: legal)
  have every: "(\<exists>c. children (ns ! nid) ! b = Some c)
           \<and> UCB ns nid 1 b = Inr (sc b) \<and> sc b \<le> sc a \<and> (b < a \<longrightarrow> sc b < sc a)"
    if "b < length vm" "vm ! b" for b
  proof -
    from that have "b \<in> set idcs" by (simp add: legal)
    with scores cmp show ?thesis by simp
  qed
  from nid a child every show ?thesis
    unfolding ns_def [symmetric] vm_def [symmetric] sc_def by simp
qed

lemma toy_equal_select:
  "select_best_child toy_rules toy_eval toy_equal_tree 0 1 = Inr (toy_equal_tree, Some 1, 0)"
  by (simp add: select_best_child_def node_at_def toy_equal_tree_def cached_children_def
      toy_rules_def toy_state_def valid_move_idcs_def UCB_def avg_Q_def index_def)

lemma toy_second_select:
  "select_best_child toy_rules toy_eval toy_second_tree 0 1 = Inr (toy_second_tree, Some 2, 1)"
  by (simp add: select_best_child_def node_at_def toy_second_tree_def cached_children_def
      toy_rules_def toy_state_def valid_move_idcs_def UCB_def avg_Q_def index_def)

text \<open>
  Two runs: with equal scores the first action is returned, and with a higher score at the
  second action the second is returned.
\<close>

theorem select_best_child_first_max_witness:
  "select_best_child toy_rules toy_eval toy_equal_tree 0 1 = Inr (toy_equal_tree, Some 1, 0)
   \<and> spec_UCB (nodes toy_equal_tree) 0 1 = spec_UCB (nodes toy_equal_tree) 0 0
   \<and> spec_UCB (nodes toy_equal_tree) 0 0 = 3 / 8
   \<and> select_best_child toy_rules toy_eval toy_second_tree 0 1 = Inr (toy_second_tree, Some 2, 1)
   \<and> get_valid_moves toy_rules (state (nodes toy_second_tree ! 0)) = [True, True]
   \<and> spec_UCB (nodes toy_second_tree) 0 0 = 3 / 8
   \<and> spec_UCB (nodes toy_second_tree) 0 1 = 1"
proof -
  have equal_scores: "spec_UCB (nodes toy_equal_tree) 0 1 = spec_UCB (nodes toy_equal_tree) 0 0"
    "spec_UCB (nodes toy_equal_tree) 0 0 = 3 / 8"
    by (simp_all add: spec_UCB_def toy_equal_tree_def)
  have second_scores: "spec_UCB (nodes toy_second_tree) 0 0 = 3 / 8"
    "spec_UCB (nodes toy_second_tree) 0 1 = 1"
    by (simp_all add: spec_UCB_def toy_second_tree_def)
  have flags: "get_valid_moves toy_rules (state (nodes toy_second_tree ! 0)) = [True, True]"
    by (simp add: toy_second_tree_def toy_rules_def toy_state_def)
  from select_best_child_first_max [OF toy_equal_select]
  have "get_valid_moves toy_rules (state (nodes toy_equal_tree ! 0)) ! 0"
    by (elim conjE)
  moreover from select_best_child_first_max [OF toy_second_select]
  have "get_valid_moves toy_rules (state (nodes toy_second_tree ! 0)) ! 1"
    by (elim conjE)
  ultimately show ?thesis
    using toy_equal_select toy_second_select equal_scores second_scores flags
    by (intro conjI)
qed

section \<open>Properties of the lookahead batcher\<close>

lemma lookahead_moves_count:
  "lookahead_moves gr vm cns cpis cvals moves k = Inr (k', Qs, pis) \<Longrightarrow>
     k' = k + length (filter (\<lambda>m. vm ! m) moves) \<and> length Qs = length moves"
proof (induction moves arbitrary: k k' Qs pis)
  case Nil
  then show ?case by simp
next
  case (Cons m ms)
  show ?case
  proof (cases "vm ! m")
    case True
    with Cons.prems obtain Qs' pis' where
      "lookahead_moves gr vm cns cpis cvals ms (k + 1) = Inr (k', Qs', pis')"
      and "length Qs = Suc (length Qs')"
      by (auto simp: index_def Let_def split: sum.splits if_splits bool.splits)
    with Cons.IH [OF this(1)] True show ?thesis by simp
  next
    case False
    with Cons.prems obtain Qs' where
      "lookahead_moves gr vm cns cpis cvals ms k = Inr (k', Qs', pis)"
      and "length Qs = Suc (length Qs')"
      by (auto simp: index_def Let_def split: sum.splits if_splits bool.splits)
    with Cons.IH [OF this(1)] False show ?thesis by simp
  qed
qed

lemma lookahead_moves_nth:
  "lookahead_moves gr vm cns cpis cvals moves k = Inr (k', Qs, pis) \<Longrightarrow> j < length moves \<Longrightarrow>
     Qs ! j = (if vm ! (moves ! j)
               then - child_value gr cns cvals (k + length (filter (\<lambda>m. vm ! m) (take j moves)))
               else 0)"
proof (induction moves arbitrary: k k' Qs pis j)
  case Nil
  then show ?case by simp
next
  case (Cons m ms)
  show ?case
  proof (cases "vm ! m")
    case True
    with Cons.prems(1) obtain Qs' pis' where
      run: "lookahead_moves gr vm cns cpis cvals ms (k + 1) = Inr (k', Qs', pis')"
      and Qs: "Qs = (- child_value gr cns cvals k) # Qs'"
      by (auto simp: index_def Let_def child_value_def split: sum.splits if_splits bool.splits)
    show ?thesis
    proof (cases j)
      case 0
      with Qs True show ?thesis by simp
    next
      case (Suc i)
      with Cons.prems(2) have "i < length ms" by simp
      from Cons.IH [OF run this] Qs True Suc show ?thesis by simp
    qed
  next
    case False
    with Cons.prems(1) obtain Qs' where
      run: "lookahead_moves gr vm cns cpis cvals ms k = Inr (k', Qs', pis)"
      and Qs: "Qs = 0 # Qs'"
      by (auto simp: index_def Let_def split: sum.splits if_splits bool.splits)
    show ?thesis
    proof (cases j)
      case 0
      with Qs False show ?thesis by simp
    next
      case (Suc i)
      with Cons.prems(2) have "i < length ms" by simp
      from Cons.IH [OF run this] Qs False Suc show ?thesis by simp
    qed
  qed
qed

lemma child_position_Cons_0:
  "child_position gr (s # ss) 0 m = length (filter (\<lambda>k. get_valid_moves gr s ! k) [0..<m])"
  by (simp add: child_position_def)

lemma child_position_Cons_Suc:
  "child_position gr (s # ss) (Suc i) m
     = length (canonical_children gr s) + child_position gr ss i m"
  by (simp add: child_position_def)

lemma lookahead_states_spec:
  assumes "lookahead_states gr cns cpis cvals sts k = Inr (k', bq, bp)"
    and "\<forall>s \<in> set sts. length (get_valid_moves gr s) = get_action_size gr s"
  shows "k' = k + length (concat (map (canonical_children gr) sts)) \<and> length bq = length sts
     \<and> (\<forall>i<length sts. length (bq ! i) = get_action_size gr (sts ! i)
           \<and> (\<forall>m<get_action_size gr (sts ! i).
                 bq ! i ! m = (if get_valid_moves gr (sts ! i) ! m
                    then - child_value gr cns cvals (k + child_position gr sts i m)
                    else 0)))"
  using assms
proof (induction sts arbitrary: k k' bq bp)
  case Nil
  then show ?case by simp
next
  case (Cons s ss)
  define vm where "vm = get_valid_moves gr s"
  define n where "n = get_action_size gr s"
  have len: "length vm = n" using Cons.prems(2) by (simp add: vm_def n_def)
  from Cons.prems(1) obtain k1 Qs pis bq' bp' where
    inner: "lookahead_moves gr vm cns cpis cvals [0..<n] k = Inr (k1, Qs, pis)"
    and rest: "lookahead_states gr cns cpis cvals ss k1 = Inr (k', bq', bp')"
    and bq: "bq = Qs # bq'"
    by (auto simp: vm_def n_def split: sum.splits)
  from lookahead_moves_count [OF inner] len have
    k1: "k1 = k + length (canonical_children gr s)" and lenQ: "length Qs = n"
    by (simp_all add: canonical_children_def valid_move_idcs_def vm_def)
  have Qs: "Qs ! m = (if vm ! m
       then - child_value gr cns cvals (k + child_position gr (s # ss) 0 m) else 0)"
    if "m < n" for m
    using lookahead_moves_nth [OF inner, of m] that
    by (simp add: child_position_Cons_0 vm_def)
  have contract: "\<forall>s \<in> set ss. length (get_valid_moves gr s) = get_action_size gr s"
    using Cons.prems(2) by simp
  note IH = Cons.IH [OF rest contract]
  have row: "length (bq ! i) = get_action_size gr ((s # ss) ! i)
           \<and> (\<forall>m<get_action_size gr ((s # ss) ! i).
                 bq ! i ! m = (if get_valid_moves gr ((s # ss) ! i) ! m
                    then - child_value gr cns cvals (k + child_position gr (s # ss) i m)
                    else 0))"
    if "i < length (s # ss)" for i
  proof (cases i)
    case 0
    then show ?thesis using bq lenQ Qs by (simp add: n_def vm_def)
  next
    case (Suc i')
    with that have "i' < length ss" by simp
    with IH show ?thesis
      by (simp add: Suc bq k1 child_position_Cons_Suc add.assoc)
  qed
  from IH have "k' = k + length (concat (map (canonical_children gr) (s # ss)))"
    by (simp add: k1)
  moreover from IH have "length bq = length (s # ss)" by (simp add: bq)
  ultimately show ?case using row by simp
qed

lemma concat_nth_offset:
  "i < length xss \<Longrightarrow> p < length (xss ! i) \<Longrightarrow>
     concat xss ! (length (concat (take i xss)) + p) = xss ! i ! p"
proof (induction xss arbitrary: i)
  case Nil
  then show ?case by simp
next
  case (Cons xs xss)
  show ?case
  proof (cases i)
    case 0
    with Cons.prems show ?thesis by (simp add: nth_append)
  next
    case (Suc i')
    with Cons.prems Cons.IH [of i'] show ?thesis by (simp add: nth_append)
  qed
qed

lemma filter_upt_position:
  assumes "m < n" and "P m"
  shows "filter P [0..<n] ! length (filter P [0..<m]) = m"
    and "length (filter P [0..<m]) < length (filter P [0..<n])"
proof -
  from assms(1) obtain d where n: "n = m + d" and d: "0 < d"
    by (metis less_imp_add_positive)
  have "[0..<m + d] = [0..<m] @ [m..<m + d]" by (rule upt_add_eq_append) simp
  moreover have "[m..<m + d] = m # [Suc m..<m + d]" using d by (simp add: upt_conv_Cons)
  ultimately have "[0..<n] = [0..<m] @ m # [Suc m..<n]" by (simp add: n)
  then have "filter P [0..<n] = filter P [0..<m] @ m # filter P [Suc m..<n]"
    using assms(2) by simp
  then show "filter P [0..<n] ! length (filter P [0..<m]) = m"
    and "length (filter P [0..<m]) < length (filter P [0..<n])"
    by simp_all
qed

lemma child_position_aligned:
  assumes "i < length states" and "m < length (get_valid_moves gr (states ! i))"
    and "get_valid_moves gr (states ! i) ! m"
  shows "concat (map (canonical_children gr) states) ! child_position gr states i m
           = canonical_next gr (states ! i) m"
proof -
  let ?P = "\<lambda>k. get_valid_moves gr (states ! i) ! k"
  let ?p = "length (filter ?P [0..<m])"
  let ?n = "length (get_valid_moves gr (states ! i))"
  have p: "?p < length (filter ?P [0..<?n])" and at: "filter ?P [0..<?n] ! ?p = m"
    using filter_upt_position [of m ?n ?P] assms(2,3) by simp_all
  then have plen: "?p < length (map (canonical_children gr) states ! i)"
    using assms(1) by (simp add: canonical_children_def valid_move_idcs_def)
  have "concat (map (canonical_children gr) states)
          ! (length (concat (take i (map (canonical_children gr) states))) + ?p)
        = map (canonical_children gr) states ! i ! ?p"
    using assms(1) plen by (intro concat_nth_offset) simp_all
  also have "\<dots> = canonical_next gr (states ! i) m"
    using assms(1) p at by (simp add: canonical_children_def valid_move_idcs_def)
  finally show ?thesis by (simp add: child_position_def take_map)
qed

text \<open>
  C8. For a batch whose states have one legality flag per action,
  \<^verbatim>\<open>get_immediate_lookahead\<close> invokes the evaluator exactly once, on the concatenation, in
  batch order, of the canonical successors of the legal actions of each state. When it
  returns, the q-value of an illegal action is 0; that of a legal action whose canonical
  successor has ended is the negated outcome of the area comparison on that successor
  (\<open>+1\<close> when the first area is greater, \<open>-1\<close> when it is less, 0 when they are equal);
  that of any other legal action is the negated value the evaluator gave for that successor.
\<close>

theorem get_immediate_lookahead_spec:
  assumes "\<forall>s \<in> set states. length (get_valid_moves gr s) = get_action_size gr s"
  shows "fst (get_immediate_lookahead gr ff states)
           = [concat (map (canonical_children gr) states)]
     \<and> (\<forall>bp bq cns. snd (get_immediate_lookahead gr ff states) = Inr (bp, bq, cns) \<longrightarrow>
          cns = concat (map (canonical_children gr) states) \<and> length bq = length states
          \<and> (\<forall>i<length states. length (bq ! i) = get_action_size gr (states ! i)
                \<and> (\<forall>m<get_action_size gr (states ! i).
                      bq ! i ! m =
                        (if \<not> get_valid_moves gr (states ! i) ! m then 0
                         else if get_game_ended gr (canonical_next gr (states ! i) m)
                         then - (if fst (get_areas gr (canonical_next gr (states ! i) m))
                                      > snd (get_areas gr (canonical_next gr (states ! i) m)) then 1
                                 else if fst (get_areas gr (canonical_next gr (states ! i) m))
                                      < snd (get_areas gr (canonical_next gr (states ! i) m)) then - 1
                                 else 0)
                         else - (snd (ff cns) ! child_position gr states i m)))))"
proof -
  define all where "all = concat (map (canonical_children gr) states)"
  obtain cpis cvals where ff: "ff all = (cpis, cvals)" by (cases "ff all")
  have trace: "fst (get_immediate_lookahead gr ff states) = [all]"
    by (simp add: get_immediate_lookahead_def Let_def all_def [symmetric] ff)
  have result: "cns = all \<and> length bq = length states
          \<and> (\<forall>i<length states. length (bq ! i) = get_action_size gr (states ! i)
                \<and> (\<forall>m<get_action_size gr (states ! i).
                      bq ! i ! m =
                        (if \<not> get_valid_moves gr (states ! i) ! m then 0
                         else if get_game_ended gr (canonical_next gr (states ! i) m)
                         then - (if fst (get_areas gr (canonical_next gr (states ! i) m))
                                      > snd (get_areas gr (canonical_next gr (states ! i) m)) then 1
                                 else if fst (get_areas gr (canonical_next gr (states ! i) m))
                                      < snd (get_areas gr (canonical_next gr (states ! i) m)) then - 1
                                 else 0)
                         else - (snd (ff cns) ! child_position gr states i m))))"
    if ok: "snd (get_immediate_lookahead gr ff states) = Inr (bp, bq, cns)" for bp bq cns
  proof -
    from ok obtain k' bp' where
      run: "lookahead_states gr all cpis cvals states 0 = Inr (k', bq, bp')" and cns: "cns = all"
      by (auto simp: get_immediate_lookahead_def Let_def all_def [symmetric] ff
          split: sum.splits if_splits)
    note spec = lookahead_states_spec [OF run assms]
    have cell: "bq ! i ! m =
                        (if \<not> get_valid_moves gr (states ! i) ! m then 0
                         else if get_game_ended gr (canonical_next gr (states ! i) m)
                         then - (if fst (get_areas gr (canonical_next gr (states ! i) m))
                                      > snd (get_areas gr (canonical_next gr (states ! i) m)) then 1
                                 else if fst (get_areas gr (canonical_next gr (states ! i) m))
                                      < snd (get_areas gr (canonical_next gr (states ! i) m)) then - 1
                                 else 0)
                         else - (snd (ff cns) ! child_position gr states i m))"
      if i: "i < length states" and m: "m < get_action_size gr (states ! i)" for i m
    proof (cases "get_valid_moves gr (states ! i) ! m")
      case False
      with spec i m show ?thesis by simp
    next
      case True
      from i assms have "length (get_valid_moves gr (states ! i)) = get_action_size gr (states ! i)"
        by simp
      with m have "m < length (get_valid_moves gr (states ! i))" by simp
      from child_position_aligned [OF i this True]
      have at: "all ! child_position gr states i m = canonical_next gr (states ! i) m"
        by (simp add: all_def)
      from spec i m True have
        "bq ! i ! m = - child_value gr all cvals (child_position gr states i m)" by simp
      with at True show ?thesis
        by (simp add: child_value_def canonical_winning_def cns ff split: prod.splits)
    qed
    from spec cns cell show ?thesis by simp
  qed
  from trace result show ?thesis unfolding all_def by blast
qed

lemma toy_lookahead_run:
  "get_immediate_lookahead toy_rules toy_eval [toy_state 0, toy_state 2]
     = ([[toy_state (- 1), toy_state 2, toy_state 3]],
        Inr ([[[1 / 2, 1 / 2], [1 / 2, 1 / 2]], [[1 / 2, 1 / 2]]],
             [[1 / 4, - 1], [- 1, 0]],
             [toy_state (- 1), toy_state 2, toy_state 3]))"
  by (simp add: get_immediate_lookahead_def canonical_children_def canonical_next_def
      valid_move_idcs_def toy_rules_def toy_eval_def toy_state_def index_def
      canonical_winning_def upt_rec Let_def)

theorem get_immediate_lookahead_spec_witness:
  "length (get_valid_moves toy_rules (toy_state 0)) = get_action_size toy_rules (toy_state 0)
   \<and> length (get_valid_moves toy_rules (toy_state 2)) = get_action_size toy_rules (toy_state 2)
   \<and> fst (get_immediate_lookahead toy_rules toy_eval [toy_state 0, toy_state 2])
       = [[toy_state (- 1), toy_state 2, toy_state 3]]
   \<and> (\<exists>bp cns. snd (get_immediate_lookahead toy_rules toy_eval [toy_state 0, toy_state 2])
         = Inr (bp, [[1 / 4, - 1], [- 1, 0]], cns))"
proof -
  have contract: "\<forall>s \<in> set [toy_state 0, toy_state 2].
       length (get_valid_moves toy_rules s) = get_action_size toy_rules s"
    by (simp add: toy_rules_def)
  from get_immediate_lookahead_spec [OF contract, of toy_eval] toy_lookahead_run contract
  show ?thesis by simp
qed

lemma cache_children_no_moves:
  assumes "valid_move_idcs (get_valid_moves gr (state (nodes t ! nid))) = []"
    and "cache_children gr ff t nid = Inr t1"
  shows "t1 = t"
  using assms
  by (auto simp: cache_children_def node_at_def Let_def split: sum.splits if_splits)

text \<open>
  C9. For a batch whose states have one legality flag per action: when the evaluator returns
  a number of priors or of values that differs from the number of successors it was given,
  \<^verbatim>\<open>get_immediate_lookahead\<close> ends in an exception, after its single call of the evaluator
  (too few outputs fail at the first missing one, too many at the assertion). And when the
  node's state has no legal action, \<^verbatim>\<open>select_best_child\<close> ends in an exception.
\<close>

theorem mismatch_and_no_move_fatal:
  "((\<forall>s \<in> set states. length (get_valid_moves gr s) = get_action_size gr s)
      \<and> (length (fst (ff (concat (map (canonical_children gr) states))))
              \<noteq> length (concat (map (canonical_children gr) states))
         \<or> length (snd (ff (concat (map (canonical_children gr) states))))
              \<noteq> length (concat (map (canonical_children gr) states)))
      \<longrightarrow> (\<exists>e. get_immediate_lookahead gr ff states
                   = ([concat (map (canonical_children gr) states)], Inl e)))
   \<and> (valid_move_idcs (get_valid_moves rules (state (nodes t ! nid))) = []
      \<longrightarrow> (\<exists>e. select_best_child rules ev t nid u = Inl e))"
proof (intro conjI impI)
  assume a: "(\<forall>s \<in> set states. length (get_valid_moves gr s) = get_action_size gr s)
      \<and> (length (fst (ff (concat (map (canonical_children gr) states))))
              \<noteq> length (concat (map (canonical_children gr) states))
         \<or> length (snd (ff (concat (map (canonical_children gr) states))))
              \<noteq> length (concat (map (canonical_children gr) states)))"
  define all where "all = concat (map (canonical_children gr) states)"
  obtain cpis cvals where ff: "ff all = (cpis, cvals)" by (cases "ff all")
  from a have contract: "\<forall>s \<in> set states. length (get_valid_moves gr s) = get_action_size gr s"
    and mismatch: "length cpis \<noteq> length all \<or> length cvals \<noteq> length all"
    by (simp_all add: all_def [symmetric] ff)
  show "\<exists>e. get_immediate_lookahead gr ff states
                   = ([concat (map (canonical_children gr) states)], Inl e)"
  proof (cases "lookahead_states gr all cpis cvals states 0")
    case (Inl e)
    then show ?thesis
      by (simp add: get_immediate_lookahead_def Let_def all_def [symmetric] ff)
  next
    case (Inr r)
    then obtain k' bq bp where
      run: "lookahead_states gr all cpis cvals states 0 = Inr (k', bq, bp)" by (cases r) auto
    from lookahead_states_spec [OF run contract] have "k' = length all" by (simp add: all_def)
    with mismatch run show ?thesis
      by (auto simp: get_immediate_lookahead_def Let_def all_def [symmetric] ff)
  qed
next
  assume none: "valid_move_idcs (get_valid_moves rules (state (nodes t ! nid))) = []"
  show "\<exists>e. select_best_child rules ev t nid u = Inl e"
  proof (cases "node_at (nodes t) nid")
    case (Inl e)
    then show ?thesis by (simp add: select_best_child_def)
  next
    case (Inr self0)
    then have self0: "self0 = nodes t ! nid" by (auto simp: node_at_def split: if_splits)
    show ?thesis
    proof (cases "if \<not> cached_children self0 then cache_children rules ev t nid else Inr t")
      case (Inl e)
      with Inr show ?thesis by (simp add: select_best_child_def)
    next
      case expanded: (Inr t1)
      with none have "t1 = t"
        by (auto dest: cache_children_no_moves split: if_splits)
      with Inr expanded none self0 show ?thesis
        by (simp add: select_best_child_def)
    qed
  qed
qed

lemma toy_short_run:
  "get_immediate_lookahead toy_rules toy_short_eval [toy_state 0]
     = ([[toy_state (- 1), toy_state 2]], Inl IndexError)"
  by (simp add: get_immediate_lookahead_def canonical_children_def canonical_next_def
      valid_move_idcs_def toy_rules_def toy_short_eval_def toy_state_def index_def
      canonical_winning_def upt_rec Let_def)

lemma toy_long_run:
  "get_immediate_lookahead toy_rules toy_long_eval [toy_state 0]
     = ([[toy_state (- 1), toy_state 2]], Inl AssertionError)"
  by (simp add: get_immediate_lookahead_def canonical_children_def canonical_next_def
      valid_move_idcs_def toy_rules_def toy_long_eval_def toy_state_def index_def
      canonical_winning_def upt_rec Let_def)

lemma toy_stuck_select:
  "select_best_child toy_stuck_rules toy_eval toy_equal_tree 0 1
     = Inl (Exception ''MCTS: move should not be None, please debug'')"
  by (simp add: select_best_child_def node_at_def toy_equal_tree_def cached_children_def
      toy_stuck_rules_def toy_rules_def valid_move_idcs_def)

theorem mismatch_and_no_move_fatal_witness:
  "length (get_valid_moves toy_rules (toy_state 0)) = get_action_size toy_rules (toy_state 0)
   \<and> length (fst (toy_short_eval (concat (map (canonical_children toy_rules) [toy_state 0]))))
        \<noteq> length (concat (map (canonical_children toy_rules) [toy_state 0]))
   \<and> get_immediate_lookahead toy_rules toy_short_eval [toy_state 0]
        = ([[toy_state (- 1), toy_state 2]], Inl IndexError)
   \<and> valid_move_idcs (get_valid_moves toy_stuck_rules (state (nodes toy_equal_tree ! 0))) = []
   \<and> select_best_child toy_stuck_rules toy_eval toy_equal_tree 0 1
        = Inl (Exception ''MCTS: move should not be None, please debug'')"
proof -
  have contract: "\<forall>s \<in> set [toy_state 0].
      length (get_valid_moves toy_rules s) = get_action_size toy_rules s"
    by (simp add: toy_rules_def)
  have short: "length (fst (toy_short_eval (concat (map (canonical_children toy_rules) [toy_state 0]))))
        \<noteq> length (concat (map (canonical_children toy_rules) [toy_state 0]))"
    by (simp add: toy_short_eval_def canonical_children_def valid_move_idcs_def toy_rules_def
        toy_state_def upt_rec)
  have stuck: "valid_move_idcs (get_valid_moves toy_stuck_rules (state (nodes toy_equal_tree ! 0))) = []"
    by (simp add: valid_move_idcs_def toy_stuck_rules_def toy_rules_def upt_rec)
  from mismatch_and_no_move_fatal
         [of "[toy_state 0]" toy_rules toy_short_eval toy_stuck_rules toy_equal_tree 0 toy_eval 1]
       contract short stuck toy_short_run toy_stuck_select
  show ?thesis by simp
qed

section \<open>Stepping the root, and the value returned by the search\<close>

lemma toy_fresh_tree_built:
  "MCTree_init toy_rules toy_eval 1 (toy_state 0) = Inr toy_fresh_tree"
  by (simp add: MCTree_init_def toy_eval_def index_def Node_init_def Node_fields_def
      toy_state_def toy_rules_def visited_def node_at_def toy_fresh_tree_def)

lemma nd_index_first_shape:
  "nd_index a 0 = Inr b \<Longrightarrow> length (shape a) = Suc (length (shape b))"
  by (cases a; cases "case a of Array xs \<Rightarrow> xs | _ \<Rightarrow> []") (auto split: if_splits)

lemma Node_init_flat:
  "length (shape st) < 3 \<Longrightarrow> Node_init gr ns pa probs v st = Inr x \<Longrightarrow> False"
  by (auto simp: Node_init_def Node_fields_def split: option.splits sum.splits prod.splits
      if_splits)

lemma make_children_first_fails:
  assumes "length (shape child0) \<le> 3"
  shows "\<exists>e. make_children gr nid batch_pis batch_qvals (child0 # others) ((0, move) # rest) ns
               = Inl e"
proof (cases "nd_index child0 0")
  case (Inl e)
  then show ?thesis by (auto simp: index_def split: sum.splits if_splits)
next
  case (Inr st)
  from nd_index_first_shape [OF Inr] assms have "length (shape st) < 3" by simp
  then have "\<And>probs v x. Node_init gr ns (Some (nid, move)) probs v st \<noteq> Inr x"
    by (auto dest: Node_init_flat)
  with Inr show ?thesis
    by (auto simp: index_def split: sum.splits if_splits)
qed

text \<open>
  Expansion never succeeds on a game whose states are arrays of three dimensions (channels,
  rows, columns), as the constructor of a tree requires: for a node that has not ended and
  has a legal move, \<^verbatim>\<open>cache_children\<close> ends in an exception. It hands
  \<^verbatim>\<open>batch_canonical_children[0][idx]\<close> to \<^verbatim>\<open>Node\<close>, which is a two-dimensional slice of the
  first successor, and \<^verbatim>\<open>Node.__init__\<close> reads \<^verbatim>\<open>state.shape[2]\<close>.
\<close>

lemma cache_children_fails:
  assumes "node_at (nodes t) nid = Inr self" and "\<not> terminal self"
    and "canonical_children gr (state self) = child0 # others"
    and "length (shape child0) \<le> 3"
  shows "\<exists>e. cache_children gr ff t nid = Inl e"
proof (cases "snd (get_immediate_lookahead gr ff [state self])")
  case (Inl e)
  with assms(1,2) show ?thesis by (simp add: cache_children_def)
next
  case (Inr r)
  obtain bp bq bcc where r: "r = (bp, bq, bcc)" by (cases r)
  have "fst (get_immediate_lookahead gr ff [state self]) = [child0 # others]"
    by (simp add: get_immediate_lookahead_def Let_def assms(3) split: prod.splits)
  from Inr r have bcc: "bcc = child0 # others"
    by (auto simp: get_immediate_lookahead_def Let_def assms(3)
        split: prod.splits sum.splits if_splits)
  from assms(3) obtain move rest where
    idcs: "valid_move_idcs (get_valid_moves gr (state self)) = move # rest"
    by (cases "valid_move_idcs (get_valid_moves gr (state self))")
       (auto simp: canonical_children_def)
  from make_children_first_fails [OF assms(4), of gr nid bp bq others move "enumerate 1 rest" "nodes t"]
  obtain e where "make_children gr nid bp bq (child0 # others) ((0, move) # enumerate 1 rest) (nodes t)
                    = Inl e" by blast
  with assms(1,2) Inr r bcc idcs show ?thesis
    by (simp add: cache_children_def)
qed

lemma toy_fresh_select:
  "select_best_child toy_rules toy_eval toy_fresh_tree 0 1 = Inl IndexError"
  by (simp add: select_best_child_def node_at_def toy_fresh_tree_def cached_children_def
      cache_children_def get_immediate_lookahead_def canonical_children_def canonical_next_def
      valid_move_idcs_def toy_rules_def toy_eval_def toy_state_def index_def
      canonical_winning_def upt_rec Let_def Node_init_def Node_fields_def)

lemma toy_fresh_search:
  "get_action_probs toy_rules toy_eval frames toy_fresh_tree 1 1 = Some (Inl IndexError)"
proof -
  have root: "node_at (nodes toy_fresh_tree) 0 = Inr (nodes toy_fresh_tree ! 0)"
    "visited (nodes toy_fresh_tree ! 0)" "\<not> terminal (nodes toy_fresh_tree ! 0)"
    "root_ref toy_fresh_tree = 0"
    by (simp_all add: node_at_def toy_fresh_tree_def visited_def)
  have "descend toy_rules toy_eval toy_fresh_tree 0 = Some (Inl IndexError)"
    by (subst descend.simps) (simp add: root toy_fresh_select)
  then have "search_loop toy_rules toy_eval frames 1 0 toy_fresh_tree = Some (Inl IndexError)"
    by (subst search_loop.simps) (simp add: root)
  then show ?thesis by (simp add: get_action_probs_def)
qed

lemma toy_terminal_search:
  "search_loop toy_rules toy_eval 1 1 0 toy_terminal_tree = Some (Inr (toy_terminal_tree_after, 1))"
proof -
  have root: "node_at (nodes toy_terminal_tree) 0 = Inr (nodes toy_terminal_tree ! 0)"
    "terminal (nodes toy_terminal_tree ! 0)" "root_ref toy_terminal_tree = 0"
    by (simp_all add: node_at_def toy_terminal_tree_def)
  have d: "descend toy_rules toy_eval toy_terminal_tree 0 = Some (Inr (toy_terminal_tree, 0))"
    by (subst descend.simps) (simp add: root)
  have bp: "back_propagate (Suc 0) (nodes toy_terminal_tree) 0 (V (nodes toy_terminal_tree ! 0))
              = Inr (nodes toy_terminal_tree_after)"
    by (simp add: node_at_def toy_terminal_tree_def toy_terminal_tree_after_def)
  have after: "toy_terminal_tree\<lparr>nodes := nodes toy_terminal_tree_after\<rparr> = toy_terminal_tree_after"
    by (simp add: toy_terminal_tree_def toy_terminal_tree_after_def)
  have last: "search_loop toy_rules toy_eval (Suc 0) 1 1 toy_terminal_tree_after
                = Some (Inr (toy_terminal_tree_after, 1))"
    by (subst search_loop.simps) simp
  show ?thesis
    by (subst search_loop.simps) (simp add: root d bp after last del: back_propagate.simps)
qed

text \<open>
  C1 at two trees. At the tree built for the opening state, \<^verbatim>\<open>get_action_probs(1, 1)\<close>
  performs no complete simulation: its first expansion ends in \<^verbatim>\<open>IndexError\<close>. At the tree
  built for an ended state it performs the one search, and what it returns is the vector
  alone: the counter, which is 1, is not part of the result.
\<close>

theorem get_action_probs_returns_vector_only:
  "get_action_probs toy_rules toy_eval 1 toy_fresh_tree 1 1 = Some (Inl IndexError)
   \<and> search_loop toy_rules toy_eval 1 1 0 toy_terminal_tree
       = Some (Inr (toy_terminal_tree_after, 1))
   \<and> get_action_probs toy_rules toy_eval 1 toy_terminal_tree 1 1
       = Some (Inr (toy_terminal_tree_after, [0, 0]))"
proof -
  have "get_action_probs toy_rules toy_eval 1 toy_terminal_tree 1 1
          = Some (Inr (toy_terminal_tree_after, [0, 0]))"
    by (simp add: get_action_probs_def toy_terminal_search [unfolded One_nat_def] node_at_def
        toy_terminal_tree_after_def search_probs_def normalize_l1_def)
  with toy_fresh_search [of 1] toy_terminal_search show ?thesis by simp
qed

lemma back_propagate_frame:
  "back_propagate frames ns nid v = Inr ns' \<Longrightarrow>
     length ns' = length ns
     \<and> (\<forall>j<length ns. parent (ns' ! j) = parent (ns ! j) \<and> state (ns' ! j) = state (ns ! j))"
proof (induction frames ns nid v arbitrary: ns' rule: back_propagate.induct)
  case (1 ns nid value_incre)
  then show ?case by simp
next
  case (2 frames ns nid value_incre)
  from "2.prems" have nid: "nid < length ns"
    by (auto simp: node_at_def split: if_splits)
  define self where "self = ns ! nid"
  define ns1 where
    "ns1 = ns[nid := self\<lparr>N := N self + 1, Q_sum := Q_sum self + value_incre\<rparr>]"
  have at: "node_at ns nid = Inr self" using nid by (simp add: node_at_def self_def)
  have same: "length ns1 = length ns"
    "\<forall>j<length ns. parent (ns1 ! j) = parent (ns ! j) \<and> state (ns1 ! j) = state (ns ! j)"
    using nid by (simp_all add: ns1_def self_def nth_list_update)
  show ?case
  proof (cases "parent self")
    case None
    with "2.prems" at have "ns' = ns1" by (simp add: ns1_def)
    with same show ?thesis by simp
  next
    case (Some p)
    with "2.prems" at have run: "back_propagate frames ns1 p (- value_incre) = Inr ns'"
      by (simp add: ns1_def)
    from "2.IH" [OF at ns1_def Some run] same show ?thesis by simp
  qed
qed

text \<open>
  What \<^verbatim>\<open>step\<close> does in general. With an empty slot, the new root's state is the successor
  state itself; with a cached child, the new root is that child with the state it had. In
  both cases the new root has no parent.
\<close>

lemma step_fresh_state:
  assumes "node_at (nodes t) (root_ref t) = Inr old_root"
    and "index (children old_root) a = Inr None"
    and "step gr ff frames t a = Inr t'"
  shows "state (nodes t' ! root_ref t') = get_next_state gr (state old_root) a
         \<and> parent (nodes t' ! root_ref t') = None"
proof -
  let ?next = "get_next_state gr (state old_root) a"
  from assms obtain probs v ns c where
    init: "Node_init gr (nodes t) None probs v ?next = Inr (ns, c)"
    and tail: "(case node_at ns c of
                  Inl e \<Rightarrow> Inl e
                | Inr child_node \<Rightarrow>
                    let ns1 = ns[c := child_node\<lparr>parent := None\<rparr>] in
                    if \<not> visited (ns1 ! c) then
                      (case back_propagate frames ns1 c (V (ns1 ! c)) of
                         Inl e \<Rightarrow> Inl e
                       | Inr ns2 \<Rightarrow> Inr (t\<lparr>nodes := ns2, root_ref := c\<rparr>))
                    else Inr (t\<lparr>nodes := ns1, root_ref := c\<rparr>)) = Inr t'"
    by (auto simp: step_def Let_def split: sum.splits prod.splits)
  from init have ns: "c < length ns" "state (ns ! c) = ?next" "N (ns ! c) = 0"
    by (auto simp: Node_init_def Node_fields_def Let_def split: if_splits)
  define ns1 where "ns1 = ns[c := (ns ! c)\<lparr>parent := None\<rparr>]"
  have c: "c < length ns1" "parent (ns1 ! c) = None" "state (ns1 ! c) = ?next"
    "\<not> visited (ns1 ! c)"
    using ns by (simp_all add: ns1_def visited_def)
  from tail ns c obtain ns2 where
    bp: "back_propagate frames ns1 c (V (ns1 ! c)) = Inr ns2"
    and t': "t' = t\<lparr>nodes := ns2, root_ref := c\<rparr>"
    by (auto simp: Let_def node_at_def ns1_def [symmetric] split: sum.splits)
  from back_propagate_frame [OF bp] c t' show ?thesis by simp
qed

lemma step_cached_state:
  assumes "node_at (nodes t) (root_ref t) = Inr old_root"
    and "index (children old_root) a = Inr (Some c)"
    and "step gr ff frames t a = Inr t'"
  shows "root_ref t' = c \<and> state (nodes t' ! c) = state (nodes t ! c)
         \<and> parent (nodes t' ! c) = None"
proof -
  from assms have c: "c < length (nodes t)"
    by (auto simp: step_def node_at_def split: sum.splits if_splits)
  define ns1 where "ns1 = (nodes t)[c := (nodes t ! c)\<lparr>parent := None\<rparr>]"
  have ns1: "c < length ns1" "parent (ns1 ! c) = None" "state (ns1 ! c) = state (nodes t ! c)"
    using c by (simp_all add: ns1_def)
  show ?thesis
  proof (cases "visited (ns1 ! c)")
    case True
    with assms c have "t' = t\<lparr>nodes := ns1, root_ref := c\<rparr>"
      by (auto simp: step_def Let_def node_at_def ns1_def split: sum.splits if_splits)
    with ns1 show ?thesis by simp
  next
    case False
    with assms c obtain ns2 where
      bp: "back_propagate frames ns1 c (V (ns1 ! c)) = Inr ns2"
      and t': "t' = t\<lparr>nodes := ns2, root_ref := c\<rparr>"
      by (auto simp: step_def Let_def node_at_def ns1_def split: sum.splits if_splits)
    from back_propagate_frame [OF bp] ns1 t' show ?thesis by simp
  qed
qed

text \<open>
  C2 at the tree built for the opening state, whose root has no cached child: after
  \<^verbatim>\<open>step(0)\<close> the new root has no parent, but its state is the successor state 1 as
  \<^verbatim>\<open>get_next_state\<close> returned it, not its canonical form, which is the state \<open>-1\<close> that the
  evaluator was given.
\<close>

theorem step_fresh_state_not_canonical:
  "step toy_rules toy_eval 1 toy_fresh_tree 0 = Inr toy_stepped_tree
   \<and> parent (nodes toy_stepped_tree ! root_ref toy_stepped_tree) = None
   \<and> state (nodes toy_stepped_tree ! root_ref toy_stepped_tree)
       = get_next_state toy_rules (state (nodes toy_fresh_tree ! root_ref toy_fresh_tree)) 0
   \<and> state (nodes toy_stepped_tree ! root_ref toy_stepped_tree)
       \<noteq> canonical_next toy_rules (state (nodes toy_fresh_tree ! root_ref toy_fresh_tree)) 0"
  by (simp add: step_def node_at_def toy_fresh_tree_def toy_stepped_tree_def index_def
      toy_rules_def toy_eval_def toy_state_def Node_init_def Node_fields_def visited_def
      canonical_next_def Let_def)

section \<open>Further facts about the search loop\<close>

text \<open>
  Where the search loop ends normally, its counter has reached \<^verbatim>\<open>max_num_searches\<close>: the
  loop has run once for each value of the counter from its start.
\<close>

lemma search_loop_count:
  "search_loop gr ff frames mx num t = Some (Inr (t', n)) \<Longrightarrow> n = max mx num"
proof (induction gr ff frames mx num t rule: search_loop.induct)
  case (1 gr ff frames mx num t)
  show ?case
  proof (cases "num < mx")
    case False
    with "1.prems" show ?thesis by (subst (asm) search_loop.simps) (simp add: max_def)
  next
    case True
    from "1.prems" True obtain t1 cur curr_node ns where
      d: "descend gr ff t (root_ref t) = Some (Inr (t1, cur))"
      and n: "node_at (nodes t1) cur = Inr curr_node"
      and bp: "back_propagate frames (nodes t1) cur (V curr_node) = Inr ns"
      and rest: "search_loop gr ff frames mx (num + 1) (t1\<lparr>nodes := ns\<rparr>) = Some (Inr (t', n))"
      by (subst (asm) search_loop.simps) (auto split: option.splits sum.splits)
    from "1.IH" [OF True d refl refl n bp rest] True show ?thesis by (simp add: max_def)
  qed
qed

text \<open>
  An exception of \<^verbatim>\<open>select_best_child\<close> at the root ends \<^verbatim>\<open>get_action_probs\<close>: nothing catches
  it, and no search is tried again.
\<close>

lemma get_action_probs_propagates:
  assumes "node_at (nodes t) (root_ref t) = Inr r" and "visited r" and "\<not> terminal r"
    and "select_best_child gr ff t (root_ref t) 1 = Inl e" and "0 < mx"
  shows "get_action_probs gr ff frames t mx temp = Some (Inl e)"
proof -
  have "descend gr ff t (root_ref t) = Some (Inl e)"
    using assms(1-4) by (subst descend.simps) simp
  then have "search_loop gr ff frames mx 0 t = Some (Inl e)"
    using assms(5) by (subst search_loop.simps) simp
  with assms(5) show ?thesis by (simp add: get_action_probs_def)
qed

end
